theory Spec2Isabelle
  imports Complex_Main
begin

section \<open>The command service (government backend): numbers, parsing, resolution\<close>

subsection \<open>JavaScript numbers\<close>

text \<open>
  A JavaScript number is a finite double, \<open>Infinity\<close>, \<open>-Infinity\<close> or \<open>NaN\<close>. A finite
  double is represented by the real number it denotes. The sign of zero is not
  represented: a zero divisor and a zero argument of \<open>Math.atan2\<close> are taken to be the
  positive zero. The service divides by 180 and by 2 only, the arguments of its
  \<open>Math.atan2\<close> are square roots, and \<open>x || 0\<close>, \<open><\<close> and \<open>toFixed\<close> treat the two zeros
  alike. What the platform does with finite numbers is not fixed here but taken as
  given, in a record:
  \<^item> \<open>to_number\<close>: the Number that results when the exact value of \<open>+\<close>, \<open>-\<close>, \<open>*\<close>, \<open>/\<close>,
    \<open>Math.sqrt\<close> or of a decimal literal is the given real (rounding to a double, zero on
    underflow, an infinity on overflow);
  \<^item> \<open>PI_value\<close>: the double \<open>Math.PI\<close>;
  \<^item> \<open>sin_value\<close>, \<open>cos_value\<close>, \<open>atan2_value\<close>: the results of \<open>Math.sin\<close>, \<open>Math.cos\<close> and
    \<open>Math.atan2\<close> on finite arguments, which ECMAScript leaves to the implementation;
  \<^item> \<open>big_to_string\<close>: how a number from \<open>1e21\<close> on is printed.
  Everything proved below about the service is proved for every such record. The way the
  operators and the \<open>Math\<close> functions treat the special values, and the results that
  ECMAScript fixes exactly, are written out.
\<close>

datatype jsnum = Fin real | PInf | NInf | NaN

record numerics =
  to_number :: "real \<Rightarrow> jsnum"
  PI_value :: real
  sin_value :: "real \<Rightarrow> real"
  cos_value :: "real \<Rightarrow> real"
  atan2_value :: "real \<Rightarrow> real \<Rightarrow> real"
  big_to_string :: "real \<Rightarrow> string"

fun js_neg :: "jsnum \<Rightarrow> jsnum" where
  "js_neg (Fin x) = Fin (- x)"
| "js_neg PInf = NInf"
| "js_neg NInf = PInf"
| "js_neg NaN = NaN"

fun js_add :: "numerics \<Rightarrow> jsnum \<Rightarrow> jsnum \<Rightarrow> jsnum" where
  "js_add N (Fin x) (Fin y) = to_number N (x + y)"
| "js_add N NaN y = NaN"
| "js_add N x NaN = NaN"
| "js_add N PInf NInf = NaN"
| "js_add N NInf PInf = NaN"
| "js_add N PInf y = PInf"
| "js_add N x PInf = PInf"
| "js_add N NInf y = NInf"
| "js_add N x NInf = NInf"

definition js_sub :: "numerics \<Rightarrow> jsnum \<Rightarrow> jsnum \<Rightarrow> jsnum" where
  "js_sub N x y = js_add N x (js_neg y)"

fun js_mul :: "numerics \<Rightarrow> jsnum \<Rightarrow> jsnum \<Rightarrow> jsnum" where
  "js_mul N (Fin x) (Fin y) = to_number N (x * y)"
| "js_mul N NaN y = NaN"
| "js_mul N x NaN = NaN"
| "js_mul N (Fin x) PInf = (if x = 0 then NaN else if 0 < x then PInf else NInf)"
| "js_mul N (Fin x) NInf = (if x = 0 then NaN else if 0 < x then NInf else PInf)"
| "js_mul N PInf (Fin y) = (if y = 0 then NaN else if 0 < y then PInf else NInf)"
| "js_mul N NInf (Fin y) = (if y = 0 then NaN else if 0 < y then NInf else PInf)"
| "js_mul N PInf PInf = PInf"
| "js_mul N PInf NInf = NInf"
| "js_mul N NInf PInf = NInf"
| "js_mul N NInf NInf = PInf"

fun js_div :: "numerics \<Rightarrow> jsnum \<Rightarrow> jsnum \<Rightarrow> jsnum" where
  "js_div N (Fin x) (Fin y) =
     (if y = 0 then (if x = 0 then NaN else if 0 < x then PInf else NInf)
      else to_number N (x / y))"
| "js_div N NaN y = NaN"
| "js_div N x NaN = NaN"
| "js_div N (Fin x) PInf = Fin 0"
| "js_div N (Fin x) NInf = Fin 0"
| "js_div N PInf (Fin y) = (if 0 \<le> y then PInf else NInf)"
| "js_div N NInf (Fin y) = (if 0 \<le> y then NInf else PInf)"
| "js_div N PInf PInf = NaN"
| "js_div N PInf NInf = NaN"
| "js_div N NInf PInf = NaN"
| "js_div N NInf NInf = NaN"

text \<open>\<open>x < y\<close>: false as soon as one side is \<open>NaN\<close>; on doubles it compares the values.\<close>

fun js_lt :: "jsnum \<Rightarrow> jsnum \<Rightarrow> bool" where
  "js_lt (Fin x) (Fin y) = (x < y)"
| "js_lt NaN y = False"
| "js_lt x NaN = False"
| "js_lt x NInf = False"
| "js_lt PInf y = False"
| "js_lt NInf y = True"
| "js_lt x PInf = True"

text \<open>
  \<open>Math.sin\<close>, \<open>Math.cos\<close>, \<open>Math.sqrt\<close> and \<open>Math.atan2\<close>. ECMAScript fixes
  \<open>sin 0 = 0\<close>, \<open>cos 0 = 1\<close> and \<open>atan2(0, x) = 0\<close> for \<open>x \<ge> 0\<close>, and the results on
  infinities and \<open>NaN\<close>.
\<close>

fun Math_sin :: "numerics \<Rightarrow> jsnum \<Rightarrow> jsnum" where
  "Math_sin N (Fin x) = (if x = 0 then Fin 0 else Fin (sin_value N x))"
| "Math_sin N x = NaN"

fun Math_cos :: "numerics \<Rightarrow> jsnum \<Rightarrow> jsnum" where
  "Math_cos N (Fin x) = (if x = 0 then Fin 1 else Fin (cos_value N x))"
| "Math_cos N x = NaN"

fun Math_sqrt :: "numerics \<Rightarrow> jsnum \<Rightarrow> jsnum" where
  "Math_sqrt N (Fin x) = (if x < 0 then NaN else to_number N (sqrt x))"
| "Math_sqrt N PInf = PInf"
| "Math_sqrt N x = NaN"

fun Math_atan2 :: "numerics \<Rightarrow> jsnum \<Rightarrow> jsnum \<Rightarrow> jsnum" where
  "Math_atan2 N (Fin y) (Fin x) = (if y = 0 \<and> 0 \<le> x then Fin 0 else Fin (atan2_value N y x))"
| "Math_atan2 N NaN x = NaN"
| "Math_atan2 N y NaN = NaN"
| "Math_atan2 N (Fin y) PInf = Fin 0"
| "Math_atan2 N (Fin y) NInf = (if 0 \<le> y then Fin (PI_value N) else Fin (- PI_value N))"
| "Math_atan2 N PInf (Fin x) = Fin (PI_value N / 2)"
| "Math_atan2 N NInf (Fin x) = Fin (- PI_value N / 2)"
| "Math_atan2 N PInf PInf = Fin (PI_value N / 4)"
| "Math_atan2 N PInf NInf = to_number N (3 * PI_value N / 4)"
| "Math_atan2 N NInf PInf = Fin (- PI_value N / 4)"
| "Math_atan2 N NInf NInf = to_number N (- 3 * PI_value N / 4)"

definition Math_PI :: "numerics \<Rightarrow> jsnum" where
  "Math_PI N = Fin (PI_value N)"

text \<open>\<open>x || 0\<close> on a number: \<open>NaN\<close> and zero are falsy.\<close>

definition or_zero :: "jsnum \<Rightarrow> jsnum" where
  "or_zero x = (if x = NaN \<or> x = Fin 0 then Fin 0 else x)"

text \<open>
  The angle of the point \<open>(x, y)\<close>, in \<open>(-\<pi>, \<pi>]\<close>, and the arithmetic of the real numbers
  themselves: no rounding, no overflow, the exact \<open>\<pi>\<close>, sine, cosine and angle. It is what
  the double arithmetic approximates, and the examples are computed in it.
\<close>

definition atan2_real :: "real \<Rightarrow> real \<Rightarrow> real" where
  "atan2_real y x =
     (if 0 < x then arctan (y / x)
      else if x < 0 then (if 0 \<le> y then arctan (y / x) + pi else arctan (y / x) - pi)
      else if 0 < y then pi / 2 else if y < 0 then - pi / 2 else 0)"

definition exact_numerics :: numerics where
  "exact_numerics =
     \<lparr>to_number = Fin, PI_value = pi, sin_value = sin, cos_value = cos,
      atan2_value = atan2_real, big_to_string = (\<lambda>x. [])\<rparr>"

subsection \<open>\<open>parseFloat\<close> and \<open>toFixed\<close>\<close>

text \<open>
  A string is a list of characters with codes below 256; a text with a code unit above
  255 has no counterpart here.
\<close>

definition is_digit :: "char \<Rightarrow> bool" where
  "is_digit c \<longleftrightarrow> c \<in> set ''0123456789''"

definition digit_val :: "char \<Rightarrow> nat" where
  "digit_val c = of_char c - 48"

definition digits_val :: "string \<Rightarrow> nat" where
  "digits_val ds = foldl (\<lambda>n c. 10 * n + digit_val c) 0 ds"

text \<open>
  The white space and line terminators that \<open>parseFloat\<close> skips, among these
  characters: space, tab, line feed, vertical tab, form feed, carriage return and the
  no-break space.
\<close>

definition is_space :: "char \<Rightarrow> bool" where
  "is_space c \<longleftrightarrow>
     c \<in> set [CHR '' '', CHR 0x09, CHR 0x0A, CHR 0x0B, CHR 0x0C, CHR 0x0D, CHR 0xA0]"

text \<open>The exponent part \<open>e\<close>, \<open>e+\<close> or \<open>e-\<close> followed by digits, if there is one.\<close>

definition exponent_part :: "string \<Rightarrow> int" where
  "exponent_part r =
     (case r of
        [] \<Rightarrow> 0
      | c # r' \<Rightarrow>
          if c = CHR ''e'' \<or> c = CHR ''E'' then
            (case r' of
               [] \<Rightarrow> 0
             | s # ds \<Rightarrow>
                 if s = CHR ''-'' then - int (digits_val (takeWhile is_digit ds))
                 else if s = CHR ''+'' then int (digits_val (takeWhile is_digit ds))
                 else int (digits_val (takeWhile is_digit r')))
          else 0)"

text \<open>
  \<open>parseFloat(s)\<close>: leading white space is skipped, then the longest prefix that is a
  decimal literal (sign, \<open>Infinity\<close> or digits with an optional fraction and exponent) is
  read; the rest of the string is ignored, and the result is \<open>NaN\<close> when there is no such
  prefix. The value of the literal becomes a Number by \<open>to_number\<close>.
\<close>

definition parseFloat :: "numerics \<Rightarrow> string \<Rightarrow> jsnum" where
  "parseFloat N s =
     (let t = dropWhile is_space s;
          neg = (t \<noteq> [] \<and> hd t = CHR ''-'');
          u = (if t \<noteq> [] \<and> (hd t = CHR ''-'' \<or> hd t = CHR ''+'') then tl t else t)
      in if take 8 u = ''Infinity'' then (if neg then NInf else PInf)
         else
           (let ip = takeWhile is_digit u;
                r1 = dropWhile is_digit u;
                dot = (r1 \<noteq> [] \<and> hd r1 = CHR ''.'');
                fp = (if dot then takeWhile is_digit (tl r1) else []);
                r2 = (if dot then dropWhile is_digit (tl r1) else r1)
            in if ip = [] \<and> fp = [] then NaN
               else
                 (let e = exponent_part r2;
                      m = real (digits_val ip) + real (digits_val fp) / 10 ^ length fp;
                      v = (if 0 \<le> e then m * 10 ^ nat e else m / 10 ^ nat (- e))
                  in to_number N (if neg then - v else v))))"

text \<open>The decimal digits of a natural number.\<close>

definition digit_char :: "nat \<Rightarrow> char" where
  "digit_char d = ''0123456789'' ! d"

fun dec_digits :: "nat \<Rightarrow> string" where
  "dec_digits n =
     (if n < 10 then [digit_char n] else dec_digits (n div 10) @ [digit_char (n mod 10)])"

declare dec_digits.simps [simp del]

text \<open>
  \<open>x.toFixed(2)\<close>. The sign is printed first. A magnitude below \<open>1e21\<close> is rounded to
  the nearest multiple of 1/100, the larger one on a tie, and printed with two decimals;
  from \<open>1e21\<close> on the number is printed as \<open>String\<close> prints it.
\<close>

fun toFixed2 :: "numerics \<Rightarrow> jsnum \<Rightarrow> string" where
  "toFixed2 N NaN = ''NaN''"
| "toFixed2 N PInf = ''Infinity''"
| "toFixed2 N NInf = ''-Infinity''"
| "toFixed2 N (Fin x) =
     (if x < 0 then ''-'' else []) @
     (if 10 ^ 21 \<le> \<bar>x\<bar> then big_to_string N \<bar>x\<bar>
      else (let n = nat \<lfloor>\<bar>x\<bar> * 100 + 1 / 2\<rfloor>
            in dec_digits (n div 100) @ ''.''
               @ [digit_char (n div 10 mod 10), digit_char (n mod 10)]))"

subsection \<open>Haversine\<close>

definition toRad :: "numerics \<Rightarrow> jsnum \<Rightarrow> jsnum" where
  "toRad N v = js_div N (js_mul N v (Math_PI N)) (Fin 180)"

definition haversine :: "numerics \<Rightarrow> jsnum \<Rightarrow> jsnum \<Rightarrow> jsnum \<Rightarrow> jsnum \<Rightarrow> jsnum" where
  "haversine N lat1 lon1 lat2 lon2 =
     (let R = Fin 6371;
          dLat = toRad N (js_sub N lat2 lat1);
          dLon = toRad N (js_sub N lon2 lon1);
          a = js_add N
                (js_mul N (Math_sin N (js_div N dLat (Fin 2))) (Math_sin N (js_div N dLat (Fin 2))))
                (js_mul N
                  (js_mul N
                    (js_mul N (Math_cos N (toRad N lat1)) (Math_cos N (toRad N lat2)))
                    (Math_sin N (js_div N dLon (Fin 2))))
                  (Math_sin N (js_div N dLon (Fin 2))));
          c = js_mul N (Fin 2)
                (Math_atan2 N (Math_sqrt N a) (Math_sqrt N (js_sub N (Fin 1) a)))
      in js_mul N R c)"

text \<open>
  The distance as the specification writes it, on real degrees:
  \<open>a = sin\<^sup>2(\<Delta>lat/2) + cos(lat1) cos(lat2) sin\<^sup>2(\<Delta>lon/2)\<close> and
  \<open>d = 2 R atan2(\<surd>a, \<surd>(1 - a))\<close> with \<open>R = 6371\<close>.
\<close>

definition great_circle_km :: "real \<Rightarrow> real \<Rightarrow> real \<Rightarrow> real \<Rightarrow> real" where
  "great_circle_km lat1 lon1 lat2 lon2 =
     (let a = (sin ((lat2 - lat1) * pi / 180 / 2))\<^sup>2
              + cos (lat1 * pi / 180) * cos (lat2 * pi / 180)
                * (sin ((lon2 - lon1) * pi / 180 / 2))\<^sup>2
      in 2 * 6371 * atan2_real (sqrt a) (sqrt (1 - a)))"

subsection \<open>Parsing the alert text\<close>

text \<open>
  \<open>s.split(c)\<close> for a one-character separator: the pieces between the separators, in
  order; there is always at least one piece.
\<close>

fun split_on :: "char \<Rightarrow> string \<Rightarrow> string list" where
  "split_on c [] = [[]]"
| "split_on c (x # xs) =
     (if x = c then [] # split_on c xs
      else (case split_on c xs of
              [] \<Rightarrow> [[x]]
            | t # ts \<Rightarrow> (x # t) # ts))"

text \<open>
  The object \<open>payload\<close> as a map from property names to strings. One turn of the loop
  over the tokens: \<open>const [k, v] = p.split('=')\<close> binds the first two pieces.
\<close>

type_synonym payload_obj = "string \<rightharpoonup> string"

definition parse_token :: "payload_obj \<Rightarrow> string \<Rightarrow> payload_obj" where
  "parse_token obj p =
     (if CHR ''='' \<in> set p then
        (case split_on CHR ''='' p of
           k # v # rest \<Rightarrow> obj(k \<mapsto> v)
         | [k] \<Rightarrow> obj(k := None)
         | [] \<Rightarrow> obj)
      else obj(''typeFlag'' \<mapsto> p))"

definition parse_payload :: "string \<Rightarrow> payload_obj" where
  "parse_payload raw = foldl parse_token Map.empty (split_on CHR ''|'' raw)"

text \<open>\<open>x || d\<close> on a property that is a string or \<open>undefined\<close>: the empty string is falsy.\<close>

definition or_default :: "string option \<Rightarrow> string \<Rightarrow> string" where
  "or_default x d = (case x of None \<Rightarrow> d | Some s \<Rightarrow> if s = [] then d else s)"

text \<open>\<open>parseFloat(x)\<close> on such a property: \<open>undefined\<close> is first converted to a string.\<close>

definition parseFloat_prop :: "numerics \<Rightarrow> string option \<Rightarrow> jsnum" where
  "parseFloat_prop N x = parseFloat N (case x of None \<Rightarrow> ''undefined'' | Some s \<Rightarrow> s)"

record parsed_emergency =
  deviceId :: string
  lat :: jsnum
  lon :: jsnum
  type :: string
  time :: string

text \<open>The five constants read from \<open>payload\<close>; \<open>stamp\<close> is \<open>new Date().toISOString()\<close>.\<close>

definition parse_emergency :: "numerics \<Rightarrow> string \<Rightarrow> string \<Rightarrow> parsed_emergency" where
  "parse_emergency N stamp raw =
     (let obj = parse_payload raw
      in \<lparr>deviceId = or_default (obj ''ID'') ''UNKNOWN'',
          lat = or_zero (parseFloat_prop N (obj ''LAT'')),
          lon = or_zero (parseFloat_prop N (obj ''LON'')),
          type = or_default (obj ''TYPE'') ''UNKNOWN'',
          time = or_default (obj ''TIME'') stamp\<rparr>)"

subsection \<open>The database, the resolver and the handler of \<open>POST /sos\<close>\<close>

record safe_base =
  base_id :: string
  base_name :: string
  base_lat :: jsnum
  base_lon :: jsnum
  capacity :: int
  filled :: int

record sos_event =
  ev_device_id :: string
  ev_lat :: jsnum
  ev_lon :: jsnum
  ev_type :: string
  ev_time :: string
  ev_status :: string

record db =
  sms_logs :: "(string \<times> nat) list"
  sos_events :: "sos_event list"
  safe_bases :: "safe_base list"

text \<open>
  The loop over \<open>bases\<close>, with the pair \<open>(nearest, minD)\<close> it updates; it starts from
  \<open>(null, Infinity)\<close>.
\<close>

fun nearest_scan ::
  "numerics \<Rightarrow> jsnum \<Rightarrow> jsnum \<Rightarrow> safe_base list \<Rightarrow> safe_base option \<times> jsnum
     \<Rightarrow> safe_base option \<times> jsnum" where
  "nearest_scan N la lo [] acc = acc"
| "nearest_scan N la lo (b # bs) (nearest, minD) =
     (let d = haversine N la lo (base_lat b) (base_lon b)
      in if js_lt d minD then nearest_scan N la lo bs (Some b, d)
         else nearest_scan N la lo bs (nearest, minD))"

text \<open>
  The capacity classification. \<open>capacity\<close> and \<open>filled\<close> are integers; the product
  \<open>capacity * 0.2\<close> is taken in the reals (for integers of realistic size the double
  product has the same ceiling).
\<close>

definition capacityStatus :: "safe_base option \<Rightarrow> string" where
  "capacityStatus nearest =
     (case nearest of
        None \<Rightarrow> ''AVAILABLE''
      | Some b \<Rightarrow>
          (let free = capacity b - filled b
           in if free \<le> 0 then ''FULL''
              else if free < \<lceil>real_of_int (capacity b) * 0.2\<rceil> then ''NEARLY_FULL''
              else ''AVAILABLE''))"

text \<open>The same thresholds in the monitoring page (\<open>colorForCapacity\<close>).\<close>

definition colorForCapacity :: "int \<Rightarrow> int \<Rightarrow> string" where
  "colorForCapacity cap fil =
     (let free = cap - fil
      in if free \<le> 0 then ''red''
         else if free < \<lceil>real_of_int cap * 0.2\<rceil> then ''yellow''
         else ''green'')"

text \<open>The classification as the specification states it, on \<open>(capacity, filled)\<close>.\<close>

definition capacity_status_spec :: "int \<Rightarrow> int \<Rightarrow> string" where
  "capacity_status_spec cap fil =
     (let free = cap - fil
      in if free \<le> 0 then ''FULL''
         else if free < \<lceil>real_of_int cap * 0.2\<rceil> then ''NEARLY_FULL''
         else ''AVAILABLE'')"

definition build_ack :: "numerics \<Rightarrow> safe_base option \<Rightarrow> jsnum \<Rightarrow> string" where
  "build_ack N nearest minD =
     ''ACK|SAFEBASE='' @ (case nearest of Some b \<Rightarrow> base_id b | None \<Rightarrow> ''NONE'')
     @ ''|DIST='' @ toFixed2 N minD @ ''KM|CAPACITY='' @ capacityStatus nearest"

record ws_event =
  ws_type :: string
  ws_deviceId :: string
  ws_lat :: jsnum
  ws_lon :: jsnum
  ws_emergency :: string
  ws_time :: string
  ws_ack :: string

text \<open>
  What the handler takes from outside: the clock (\<open>Date.now()\<close> and
  \<open>new Date().toISOString()\<close>), which of its three database calls reject, for each
  WebSocket client whether it is open, and the arithmetic of the platform.
\<close>

datatype db_call = InsertLog | InsertEvent | SelectBases

record env =
  now_ms :: nat
  now_iso :: string
  rejects :: "db_call \<Rightarrow> bool"
  clients_open :: "bool list"
  arithmetic :: numerics

datatype sos_response = SosAck string | SosError400 string | SosError500 string

record sos_result =
  response :: sos_response
  db_after :: db
  broadcast :: "ws_event list"

text \<open>
  The resolution step of the handler: the scan from \<open>(null, Infinity)\<close> and the ack built
  from its result. Then the row stored in \<open>sos_events\<close> and the event sent to the
  WebSocket clients.
\<close>

definition resolve_ack :: "numerics \<Rightarrow> parsed_emergency \<Rightarrow> safe_base list \<Rightarrow> string" where
  "resolve_ack N pe bases =
     (case nearest_scan N (lat pe) (lon pe) bases (None, PInf) of
        (nearest, minD) \<Rightarrow> build_ack N nearest minD)"

definition sos_event_of :: "parsed_emergency \<Rightarrow> sos_event" where
  "sos_event_of pe =
     \<lparr>ev_device_id = deviceId pe, ev_lat = lat pe, ev_lon = lon pe,
      ev_type = type pe, ev_time = time pe, ev_status = ''received''\<rparr>"

definition ws_event_of :: "parsed_emergency \<Rightarrow> string \<Rightarrow> ws_event" where
  "ws_event_of pe ack =
     \<lparr>ws_type = ''sos'', ws_deviceId = deviceId pe, ws_lat = lat pe, ws_lon = lon pe,
      ws_emergency = type pe, ws_time = time pe, ws_ack = ack\<rparr>"

text \<open>
  \<open>POST /sos\<close>. \<open>raw\<close> is absent (\<open>None\<close>) or a string (a body whose \<open>raw\<close> is another
  kind of JSON value is outside the model), and \<open>!raw\<close> also rejects the empty string. A
  database call that rejects throws into the \<open>catch\<close>, which answers 500; what was
  written before stays written. Sending the response and the WebSocket frames is taken
  not to throw.
\<close>

definition sos :: "env \<Rightarrow> string option \<Rightarrow> db \<Rightarrow> sos_result" where
  "sos e raw_opt d =
     (case raw_opt of
        None \<Rightarrow> \<lparr>response = SosError400 ''missing raw payload'', db_after = d, broadcast = []\<rparr>
      | Some raw \<Rightarrow>
          if raw = [] then
            \<lparr>response = SosError400 ''missing raw payload'', db_after = d, broadcast = []\<rparr>
          else if rejects e InsertLog then
            \<lparr>response = SosError500 ''internal'', db_after = d, broadcast = []\<rparr>
          else
            (let d1 = d\<lparr>sms_logs := sms_logs d @ [(raw, now_ms e)]\<rparr>;
                 pe = parse_emergency (arithmetic e) (now_iso e) raw
             in if rejects e InsertEvent then
                  \<lparr>response = SosError500 ''internal'', db_after = d1, broadcast = []\<rparr>
                else
                  (let d2 = d1\<lparr>sos_events := sos_events d1 @ [sos_event_of pe]\<rparr>
                   in if rejects e SelectBases then
                        \<lparr>response = SosError500 ''internal'', db_after = d2, broadcast = []\<rparr>
                      else
                        (let ack = resolve_ack (arithmetic e) pe (safe_bases d2)
                         in \<lparr>response = SosAck ack, db_after = d2,
                             broadcast = map (\<lambda>c. ws_event_of pe ack)
                                           (filter (\<lambda>c. c) (clients_open e))\<rparr>))))"

text \<open>
  Finite numbers and their values; the distance of a base with finite coordinates in the
  arithmetic of the real numbers.
\<close>

fun is_fin :: "jsnum \<Rightarrow> bool" where
  "is_fin (Fin x) = True"
| "is_fin x = False"

fun fin_val :: "jsnum \<Rightarrow> real" where
  "fin_val (Fin x) = x"
| "fin_val x = 0"

definition base_km :: "real \<Rightarrow> real \<Rightarrow> safe_base \<Rightarrow> real" where
  "base_km la lo b = great_circle_km la lo (fin_val (base_lat b)) (fin_val (base_lon b))"

text \<open>
  A token cut at its first separator, as the specification describes the split into key
  and value, and the pieces of a string joined again with the separator.
\<close>

definition split_at_first :: "char \<Rightarrow> string \<Rightarrow> string \<times> string" where
  "split_at_first c p = (takeWhile (\<lambda>x. x \<noteq> c) p, tl (dropWhile (\<lambda>x. x \<noteq> c) p))"

fun join_with :: "char \<Rightarrow> string list \<Rightarrow> string" where
  "join_with c [] = []"
| "join_with c [t] = t"
| "join_with c (t # ts) = t @ c # join_with c ts"



text \<open>The two bases the service preloads, and examples.\<close>

definition preloaded_bases :: "safe_base list" where
  "preloaded_bases =
     [\<lparr>base_id = ''BASE_SHOLI'', base_name = ''Sholinganallur Safe Base'',
       base_lat = Fin 12.8296, base_lon = Fin 80.2270, capacity = 100, filled = 10\<rparr>,
      \<lparr>base_id = ''BASE_SATHYA'', base_name = ''Sathyabama University'',
       base_lat = Fin 13.0520, base_lon = Fin 80.2043, capacity = 80, filled = 70\<rparr>]"

definition example_db :: db where
  "example_db = \<lparr>sms_logs = [], sos_events = [], safe_bases = preloaded_bases\<rparr>"

definition sathya_db :: db where
  "sathya_db = \<lparr>sms_logs = [], sos_events = [], safe_bases = [preloaded_bases ! 1]\<rparr>"


definition example_env :: env where
  "example_env = \<lparr>now_ms = 1700000000000, now_iso = ''2023-11-14T22:13:20.000Z'',
                   rejects = (\<lambda>c. False), clients_open = [True],
                   arithmetic = exact_numerics\<rparr>"

definition directory_down_env :: env where
  "directory_down_env = example_env\<lparr>rejects := (\<lambda>c. c = SelectBases)\<rparr>"

section \<open>The relay (SMS gateway simulator): records, retry queue, processor\<close>

text \<open>
  The relay keeps two in-memory arrays, \<open>messages\<close> and \<open>retryQueue\<close>, and the flag
  \<open>isProcessingQueue\<close>. Objects are only ever pushed to \<open>messages\<close> and never moved, so
  the JavaScript reference \<open>rec\<close> held by a request handler is modelled by the index of
  the record in \<open>messages\<close>. The three status strings \<open>'received'\<close>, \<open>'forwarded'\<close>
  and \<open>'queued'\<close> are the only ones the source ever assigns.
\<close>

datatype status = Received | Forwarded | Queued

record relay_message =
  msg_id :: nat
  raw :: string
  receivedAt :: nat
  status :: status
  ack :: "string option"

record retry_item =
  item_id :: nat
  payload :: string
  attempts :: nat
  lastError :: string

record relay =
  messages :: "relay_message list"
  retryQueue :: "retry_item list"
  isProcessingQueue :: bool

text \<open>
  The outcome of \<open>axios.post(.../sos)\<close>: either a success response, whose body may or
  may not carry an \<open>ack\<close> (\<open>r.data?.ack\<close> is \<open>undefined\<close> or \<open>null\<close> when it does not, and
  a string, as the command service sends it, when it does), or a rejection (timeout,
  connection error, non-2xx status) with \<open>err.message\<close>.
\<close>

datatype forward_result = Responded "string option" | Failed string

datatype relay_response =
    Ack200 string
  | Queued202
  | Error400 string
  | Error500 string

definition initial_relay :: relay where
  "initial_relay = \<lparr>messages = [], retryQueue = [], isProcessingQueue = False\<rparr>"

text \<open>\<open>r.data?.ack ?? 'ACK|UNKNOWN'\<close>\<close>

definition ack_or_unknown :: "string option \<Rightarrow> string" where
  "ack_or_unknown a = (case a of None \<Rightarrow> ''ACK|UNKNOWN'' | Some s \<Rightarrow> s)"

text \<open>\<open>Math.min(60000, 1000 * Math.pow(2, item.attempts))\<close>\<close>

definition backoff_delay :: "nat \<Rightarrow> nat" where
  "backoff_delay n = min 60000 (1000 * 2 ^ n)"

text \<open>\<open>messages.find((m) => m.id === item.id)\<close> followed by the mutation of the found object.\<close>

fun update_first :: "('a \<Rightarrow> bool) \<Rightarrow> ('a \<Rightarrow> 'a) \<Rightarrow> 'a list \<Rightarrow> 'a list" where
  "update_first P f [] = []"
| "update_first P f (x # xs) = (if P x then f x # xs else x # update_first P f xs)"

text \<open>
  The body of one iteration of the \<open>while\<close> loop of \<open>processQueue\<close>, run with the
  outcome of the forward of \<open>retryQueue[0]\<close>. The second component is the backoff delay
  slept, if any. The loop guard makes the empty case unreachable.
\<close>

definition processQueue_body :: "forward_result \<Rightarrow> relay \<Rightarrow> relay \<times> nat option" where
  "processQueue_body r st =
     (case retryQueue st of
        [] \<Rightarrow> (st, None)
      | item # rest \<Rightarrow>
          (case r of
             Responded a \<Rightarrow>
               (st\<lparr>messages :=
                      update_first (\<lambda>m. msg_id m = item_id item)
                        (\<lambda>m. m\<lparr>status := Forwarded, ack := Some (ack_or_unknown a)\<rparr>)
                        (messages st),
                    retryQueue := rest\<rparr>, None)
           | Failed e \<Rightarrow>
               (let item' = item\<lparr>attempts := attempts item + 1, lastError := e\<rparr>
                in (st\<lparr>retryQueue := item' # rest\<rparr>, Some (backoff_delay (attempts item'))))))"

text \<open>
  The loop itself, driven by the outcomes of the successive forwards. It may run for
  ever (a head that always fails), so the model consumes a finite list of outcomes: when
  the list is used up with a non-empty queue the processor is suspended at its next
  \<open>await\<close>, the flag still set. It returns the delays slept, in order.
\<close>

fun processQueue_loop :: "forward_result list \<Rightarrow> relay \<Rightarrow> relay \<times> nat list" where
  "processQueue_loop [] st =
     (if retryQueue st = [] then (st\<lparr>isProcessingQueue := False\<rparr>, []) else (st, []))"
| "processQueue_loop (r # rs) st =
     (if retryQueue st = [] then (st\<lparr>isProcessingQueue := False\<rparr>, [])
      else (case processQueue_body r st of
              (st1, d) \<Rightarrow>
                (case processQueue_loop rs st1 of
                   (st2, ds) \<Rightarrow> (st2, (case d of None \<Rightarrow> ds | Some x \<Rightarrow> x # ds)))))"

text \<open>\<open>processQueue()\<close>: the guard on the flag, then the loop.\<close>

definition processQueue :: "forward_result list \<Rightarrow> relay \<Rightarrow> relay \<times> nat list" where
  "processQueue rs st =
     (if isProcessingQueue st then (st, [])
      else processQueue_loop rs (st\<lparr>isProcessingQueue := True\<rparr>))"

text \<open>
  \<open>POST /sms-receiver\<close>, up to its \<open>await\<close>: validation and creation of the record.
  The body's \<open>payload\<close> is absent (\<open>None\<close>) or a string; \<open>!payload\<close> also rejects the
  empty string. On acceptance the index of the new record is returned with the state.
\<close>

definition sms_receiver_accept ::
  "string option \<Rightarrow> nat \<Rightarrow> relay \<Rightarrow> relay_response + nat \<times> relay" where
  "sms_receiver_accept p now st =
     (case p of
        None \<Rightarrow> Inl (Error400 ''missing payload'')
      | Some s \<Rightarrow>
          if s = [] then Inl (Error400 ''missing payload'')
          else Inr (length (messages st),
                    st\<lparr>messages := messages st @
                         [\<lparr>msg_id = length (messages st) + 1, raw = s, receivedAt = now,
                           status = Received, ack = None\<rparr>]\<rparr>))"

text \<open>
  The rest of the handler, once the forward has settled. The call \<open>processQueue()\<close> in
  the \<open>catch\<close> branch runs up to the first \<open>await\<close> of the processor: it returns at once
  when the flag is set, and otherwise sets the flag and starts forwarding the head.
  Sending the response (\<open>res.json\<close>) is taken not to throw.
\<close>

definition sms_receiver_settle ::
  "nat \<Rightarrow> forward_result \<Rightarrow> relay \<Rightarrow> relay_response \<times> relay" where
  "sms_receiver_settle idx r st =
     (case r of
        Responded a \<Rightarrow>
          (Ack200 (ack_or_unknown a),
           st\<lparr>messages := (messages st)
                  [idx := (messages st ! idx)\<lparr>status := Forwarded, ack := Some (ack_or_unknown a)\<rparr>]\<rparr>)
      | Failed e \<Rightarrow>
          (let rec = messages st ! idx;
               st1 = st\<lparr>messages := (messages st)[idx := rec\<lparr>status := Queued\<rparr>]\<rparr>;
               st2 = st1\<lparr>retryQueue := retryQueue st1 @
                        [\<lparr>item_id = msg_id rec, payload = raw rec, attempts = 0, lastError = e\<rparr>]\<rparr>
           in (Queued202, fst (processQueue [] st2))))"

text \<open>The handler run without any other handler interleaved at its \<open>await\<close>.\<close>

definition sms_receiver ::
  "string option \<Rightarrow> nat \<Rightarrow> forward_result \<Rightarrow> relay \<Rightarrow> relay_response \<times> relay" where
  "sms_receiver p now r st =
     (case sms_receiver_accept p now st of
        Inl e \<Rightarrow> (e, st)
      | Inr (idx, st') \<Rightarrow> sms_receiver_settle idx r st')"

text \<open>
  Handlers interleave at their \<open>await\<close>s. A run of the relay is a sequence of events:
  a request arrives and runs up to its \<open>await\<close> (\<open>Submit\<close>), the first forward of a
  pending request settles (\<open>Settle\<close>, naming the record), or the forward made by the
  queue processor settles (\<open>Retry\<close>, one loop iteration followed by the loop test).
  \<open>in_flight\<close> holds the records whose handler is suspended at its \<open>await\<close>.
\<close>

datatype event =
    Submit "string option" nat
  | Settle nat forward_result
  | Retry forward_result

record system =
  relay_state :: relay
  in_flight :: "nat list"

definition initial_system :: system where
  "initial_system = \<lparr>relay_state = initial_relay, in_flight = []\<rparr>"

definition step :: "event \<Rightarrow> system \<Rightarrow> system" where
  "step ev s =
     (case ev of
        Submit p now \<Rightarrow>
          (case sms_receiver_accept p now (relay_state s) of
             Inl e \<Rightarrow> s
           | Inr (idx, st') \<Rightarrow> s\<lparr>relay_state := st', in_flight := in_flight s @ [idx]\<rparr>)
      | Settle idx r \<Rightarrow>
          (if idx \<in> set (in_flight s)
           then s\<lparr>relay_state := snd (sms_receiver_settle idx r (relay_state s)),
                  in_flight := removeAll idx (in_flight s)\<rparr>
           else s)
      | Retry r \<Rightarrow>
          (if isProcessingQueue (relay_state s) \<and> retryQueue (relay_state s) \<noteq> []
           then s\<lparr>relay_state := fst (processQueue_loop [r] (relay_state s))\<rparr>
           else s))"

fun run :: "event list \<Rightarrow> system \<Rightarrow> system" where
  "run [] s = s"
| "run (ev # evs) s = run evs (step ev s)"

text \<open>The status changes a record may go through in one event.\<close>

definition allowed :: "status \<Rightarrow> status \<Rightarrow> bool" where
  "allowed a b \<longleftrightarrow>
     a = b \<or> (a = Received \<and> b = Forwarded) \<or> (a = Received \<and> b = Queued)
     \<or> (a = Queued \<and> b = Forwarded)"

text \<open>What every reachable state of the relay satisfies.\<close>

definition relay_inv :: "system \<Rightarrow> bool" where
  "relay_inv s \<longleftrightarrow>
     (let st = relay_state s in
      (\<forall>k < length (messages st). msg_id (messages st ! k) = k + 1)
      \<and> (\<forall>it \<in> set (retryQueue st).
            1 \<le> item_id it \<and> item_id it \<le> length (messages st)
            \<and> status (messages st ! (item_id it - 1)) = Queued)
      \<and> distinct (map item_id (retryQueue st))
      \<and> (\<forall>idx \<in> set (in_flight s).
            idx < length (messages st) \<and> status (messages st ! idx) = Received))"

text \<open>Whether a forward succeeded, to count the successes in a list of outcomes.\<close>

fun is_responded :: "forward_result \<Rightarrow> bool" where
  "is_responded (Responded a) = True"
| "is_responded (Failed e) = False"

section \<open>Example states\<close>

text \<open>A run used to illustrate the properties below.\<close>

definition example_events :: "event list" where
  "example_events = [Submit (Some ''SOS|ID=HX001'') 5, Settle 0 (Failed ''timeout''), Retry (Failed ''timeout'')]"

definition example_relay :: relay where
  "example_relay =
     \<lparr>messages =
        [\<lparr>msg_id = 1, raw = ''SOS|ID=A'', receivedAt = 10, status = Queued, ack = None\<rparr>,
         \<lparr>msg_id = 2, raw = ''SOS|ID=B'', receivedAt = 11, status = Queued, ack = None\<rparr>],
      retryQueue =
        [\<lparr>item_id = 1, payload = ''SOS|ID=A'', attempts = 0, lastError = ''timeout''\<rparr>,
         \<lparr>item_id = 2, payload = ''SOS|ID=B'', attempts = 0, lastError = ''timeout''\<rparr>],
      isProcessingQueue = True\<rparr>"

section \<open>Properties of the relay\<close>

subsection \<open>The queue processor\<close>

lemma processQueue_body_failed:
  "retryQueue st = item # rest \<Longrightarrow>
   processQueue_body (Failed e) st =
     (st\<lparr>retryQueue := item\<lparr>attempts := attempts item + 1, lastError := e\<rparr> # rest\<rparr>,
      Some (backoff_delay (attempts item + 1)))"
  by (simp add: processQueue_body_def)

lemma processQueue_body_responded:
  "retryQueue st = item # rest \<Longrightarrow>
   processQueue_body (Responded a) st =
     (st\<lparr>messages :=
           update_first (\<lambda>m. msg_id m = item_id item)
             (\<lambda>m. m\<lparr>status := Forwarded, ack := Some (ack_or_unknown a)\<rparr>) (messages st),
         retryQueue := rest\<rparr>, None)"
  by (simp add: processQueue_body_def)

lemma length_update_first [simp]: "length (update_first P f xs) = length xs"
  by (induction xs) auto

lemma update_first_nth:
  "i < length xs \<Longrightarrow> P (xs ! i) \<Longrightarrow> \<forall>j<i. \<not> P (xs ! j) \<Longrightarrow>
   update_first P f xs = xs[i := f (xs ! i)]"
proof (induction xs arbitrary: i)
  case Nil
  then show ?case by simp
next
  case (Cons x xs)
  show ?case
  proof (cases i)
    case 0
    with Cons.prems show ?thesis by simp
  next
    case (Suc k)
    with Cons.prems have "\<not> P x" by auto
    moreover have "update_first P f xs = xs[k := f (xs ! k)]"
      using Cons.prems Suc by (intro Cons.IH) auto
    ultimately show ?thesis using Suc by simp
  qed
qed

lemma upt_head: "[Suc a ..< Suc (Suc (a + n))] = Suc a # [Suc (Suc a) ..< Suc (Suc (a + n))]"
  by (simp add: upt_conv_Cons del: upt_Suc)

lemma processQueue_loop_failures:
  "retryQueue st = item # rest \<Longrightarrow>
   processQueue_loop (map Failed es) st =
     (st\<lparr>retryQueue :=
           item\<lparr>attempts := attempts item + length es, lastError := last (lastError item # es)\<rparr> # rest\<rparr>,
      map backoff_delay [attempts item + 1 ..< attempts item + length es + 1])"
proof (induction es arbitrary: st item)
  case Nil
  then show ?case by simp
next
  case (Cons e es)
  let ?item = "item\<lparr>attempts := attempts item + 1, lastError := e\<rparr>"
  let ?st = "st\<lparr>retryQueue := ?item # rest\<rparr>"
  have body: "processQueue_body (Failed e) st = (?st, Some (backoff_delay (attempts item + 1)))"
    using Cons.prems by (rule processQueue_body_failed)
  have "retryQueue ?st = ?item # rest" by simp
  from Cons.IH [OF this]
  have loop: "processQueue_loop (map Failed es) ?st =
     (?st\<lparr>retryQueue :=
           ?item\<lparr>attempts := attempts ?item + length es, lastError := last (lastError ?item # es)\<rparr> # rest\<rparr>,
      map backoff_delay [attempts ?item + 1 ..< attempts ?item + length es + 1])" .
  have unfold: "processQueue_loop (map Failed (e # es)) st =
      (case processQueue_loop (map Failed es) ?st of
         (st2, ds) \<Rightarrow> (st2, backoff_delay (attempts item + 1) # ds))"
    using Cons.prems by (simp add: body)
  show ?case
    unfolding unfold loop by (simp add: upt_head del: upt_Suc)
qed

lemma processQueue_loop_suffix:
  "let q = retryQueue st; q' = retryQueue (fst (processQueue_loop rs st));
       k = min (length q) (length (filter is_responded rs))
   in map item_id q' = drop k (map item_id q) \<and> map payload q' = drop k (map payload q)
      \<and> tl q' = drop (Suc k) q"
proof (induction rs arbitrary: st)
  case Nil
  then show ?case by (simp add: drop_Suc)
next
  case (Cons r rs)
  show ?case
  proof (cases "retryQueue st")
    case Nil
    then show ?thesis by simp
  next
    case (Cons item rest)
    show ?thesis
    proof (cases r)
      case (Responded a)
      let ?st = "fst (processQueue_body r st)"
      have q: "retryQueue ?st = rest"
        using Cons Responded by (simp add: processQueue_body_responded)
      have "fst (processQueue_loop (r # rs) st) = fst (processQueue_loop rs ?st)"
        using Cons by (simp split: prod.splits)
      with Cons.IH [of ?st] q Cons Responded show ?thesis
        by (simp add: Let_def)
    next
      case (Failed e)
      let ?st = "fst (processQueue_body r st)"
      have q: "retryQueue ?st = item\<lparr>attempts := attempts item + 1, lastError := e\<rparr> # rest"
        using Cons Failed by (simp add: processQueue_body_failed)
      have "fst (processQueue_loop (r # rs) st) = fst (processQueue_loop rs ?st)"
        using Cons by (simp split: prod.splits)
      with Cons.IH [of ?st] q Cons Failed show ?thesis
        by (cases "length (filter is_responded rs)") (simp_all add: Let_def drop_Suc)
    qed
  qed
qed

text \<open>
  C3: the processor changes the queue only at its head. A successful forward of the head
  removes exactly the head and leaves the items behind it as they were, in order. A
  failed forward keeps the head in place with \<open>attempts\<close> incremented and \<open>lastError\<close>
  recorded, sleeps the backoff delay and tries the same head again: after any number of
  consecutive failures the same item is still the head, so there is no attempt limit.
  Over any sequence of outcomes the queue left is the old queue without as many leading
  items as there were successful forwards.
\<close>

theorem processQueue_touches_head_only:
  assumes "retryQueue st = item # rest"
  shows "retryQueue (fst (processQueue_body (Responded a) st)) = rest
       \<and> processQueue_body (Failed e) st =
           (st\<lparr>retryQueue := item\<lparr>attempts := attempts item + 1, lastError := e\<rparr> # rest\<rparr>,
            Some (backoff_delay (attempts item + 1)))
       \<and> processQueue_loop (map Failed (e # es)) st =
           (st\<lparr>retryQueue :=
                 item\<lparr>attempts := attempts item + length (e # es), lastError := last (e # es)\<rparr> # rest\<rparr>,
            map backoff_delay [attempts item + 1 ..< attempts item + length (e # es) + 1])
       \<and> (let q' = retryQueue (fst (processQueue_loop rs st));
               k = min (length (item # rest)) (length (filter is_responded rs))
          in map item_id q' = drop k (map item_id (item # rest))
             \<and> map payload q' = drop k (map payload (item # rest))
             \<and> tl q' = drop (Suc k) (item # rest))"
proof -
  have "retryQueue (fst (processQueue_body (Responded a) st)) = rest"
    using assms by (simp add: processQueue_body_responded)
  moreover note processQueue_body_failed [OF assms, of e]
  moreover have "processQueue_loop (map Failed (e # es)) st =
           (st\<lparr>retryQueue :=
                 item\<lparr>attempts := attempts item + length (e # es), lastError := last (e # es)\<rparr> # rest\<rparr>,
            map backoff_delay [attempts item + 1 ..< attempts item + length (e # es) + 1])"
    using processQueue_loop_failures [OF assms, of "e # es"] by simp
  moreover have "let q' = retryQueue (fst (processQueue_loop rs st));
               k = min (length (item # rest)) (length (filter is_responded rs))
          in map item_id q' = drop k (map item_id (item # rest))
             \<and> map payload q' = drop k (map payload (item # rest))
             \<and> tl q' = drop (Suc k) (item # rest)"
    using processQueue_loop_suffix [of st rs] assms by (simp add: Let_def)
  ultimately show ?thesis by blast
qed

theorem processQueue_touches_head_only_witness:
  "retryQueue (fst (processQueue_loop (map Failed [''e1'', ''e2'', ''e3'']) example_relay)) =
     [\<lparr>item_id = 1, payload = ''SOS|ID=A'', attempts = 3, lastError = ''e3''\<rparr>,
      \<lparr>item_id = 2, payload = ''SOS|ID=B'', attempts = 0, lastError = ''timeout''\<rparr>]
   \<and> snd (processQueue_loop (map Failed [''e1'', ''e2'', ''e3'']) example_relay) = [2000, 4000, 8000]
   \<and> retryQueue (fst (processQueue_body (Responded (Some ''ACK'')) example_relay)) =
     [\<lparr>item_id = 2, payload = ''SOS|ID=B'', attempts = 0, lastError = ''timeout''\<rparr>]"
  using processQueue_touches_head_only
    [of example_relay "\<lparr>item_id = 1, payload = ''SOS|ID=A'', attempts = 0, lastError = ''timeout''\<rparr>"
        "[\<lparr>item_id = 2, payload = ''SOS|ID=B'', attempts = 0, lastError = ''timeout''\<rparr>]"
        "Some ''ACK''" "''e1''" "[''e2'', ''e3'']" "[]"]
  by (simp add: example_relay_def backoff_delay_def processQueue_body_def)

text \<open>
  C6: the delay slept after a failed forward is \<open>min(60000, 1000 * 2^attempts)\<close> ms for
  the already incremented attempt count of the head, and the delays for attempts 1 to 7
  are 2000, 4000, 8000, 16000, 32000, 60000, 60000.
\<close>

theorem backoff_after_failure:
  assumes "retryQueue st = item # rest"
  shows "\<exists>item'. retryQueue (fst (processQueue_body (Failed e) st)) = item' # rest
           \<and> attempts item' = attempts item + 1
           \<and> snd (processQueue_body (Failed e) st) = Some (min 60000 (1000 * 2 ^ attempts item'))
           \<and> map (\<lambda>n. min 60000 (1000 * 2 ^ n)) [1, 2, 3, 4, 5, 6, 7]
               = [2000, 4000, 8000, 16000, 32000, 60000, 60000 :: nat]
           \<and> map backoff_delay [1, 2, 3, 4, 5, 6, 7]
               = [2000, 4000, 8000, 16000, 32000, 60000, 60000]"
  using assms by (simp add: processQueue_body_failed backoff_delay_def)

theorem backoff_after_failure_witness:
  "snd (processQueue_body (Failed ''timeout'')
          \<lparr>messages = [], retryQueue = [\<lparr>item_id = 1, payload = ''SOS'', attempts = 5, lastError = ''e''\<rparr>],
           isProcessingQueue = True\<rparr>) = Some 60000"
  using backoff_after_failure
    [of "\<lparr>messages = [], retryQueue = [\<lparr>item_id = 1, payload = ''SOS'', attempts = 5, lastError = ''e''\<rparr>],
          isProcessingQueue = True\<rparr>"
        "\<lparr>item_id = 1, payload = ''SOS'', attempts = 5, lastError = ''e''\<rparr>" "[]" "''timeout''"]
  by auto

subsection \<open>The status of a record along a run\<close>

lemma relay_invI:
  assumes "\<And>k. k < length (messages (relay_state s)) \<Longrightarrow> msg_id (messages (relay_state s) ! k) = k + 1"
    and "\<And>it. it \<in> set (retryQueue (relay_state s)) \<Longrightarrow>
           1 \<le> item_id it \<and> item_id it \<le> length (messages (relay_state s))
           \<and> status (messages (relay_state s) ! (item_id it - 1)) = Queued"
    and "distinct (map item_id (retryQueue (relay_state s)))"
    and "\<And>idx. idx \<in> set (in_flight s) \<Longrightarrow>
           idx < length (messages (relay_state s)) \<and> status (messages (relay_state s) ! idx) = Received"
  shows "relay_inv s"
  using assms unfolding relay_inv_def Let_def by blast

lemma relay_inv_ids:
  "relay_inv s \<Longrightarrow> k < length (messages (relay_state s)) \<Longrightarrow>
   msg_id (messages (relay_state s) ! k) = k + 1"
  unfolding relay_inv_def Let_def by blast

lemma relay_inv_queue:
  "relay_inv s \<Longrightarrow> it \<in> set (retryQueue (relay_state s)) \<Longrightarrow>
   1 \<le> item_id it \<and> item_id it \<le> length (messages (relay_state s))
   \<and> status (messages (relay_state s) ! (item_id it - 1)) = Queued"
  unfolding relay_inv_def Let_def by blast

lemma relay_inv_distinct:
  "relay_inv s \<Longrightarrow> distinct (map item_id (retryQueue (relay_state s)))"
  unfolding relay_inv_def Let_def by blast

lemma relay_inv_in_flight:
  "relay_inv s \<Longrightarrow> idx \<in> set (in_flight s) \<Longrightarrow>
   idx < length (messages (relay_state s)) \<and> status (messages (relay_state s) ! idx) = Received"
  unfolding relay_inv_def Let_def by blast

lemma relay_inv_initial: "relay_inv initial_system"
  by (simp add: relay_inv_def initial_system_def initial_relay_def)

text \<open>What each event does to the three components, in a state that satisfies the invariant.\<close>

lemma step_Submit_rejected:
  "p = None \<or> p = Some [] \<Longrightarrow> step (Submit p now) s = s"
  by (auto simp: step_def sms_receiver_accept_def)

lemma step_Submit_accepted:
  "p = Some x \<Longrightarrow> x \<noteq> [] \<Longrightarrow>
   step (Submit p now) s =
     s\<lparr>relay_state := (relay_state s)\<lparr>messages := messages (relay_state s) @
          [\<lparr>msg_id = length (messages (relay_state s)) + 1, raw = x, receivedAt = now,
            status = Received, ack = None\<rparr>]\<rparr>,
       in_flight := in_flight s @ [length (messages (relay_state s))]\<rparr>"
  by (simp add: step_def sms_receiver_accept_def)

lemma step_Settle_responded:
  "idx \<in> set (in_flight s) \<Longrightarrow>
   step (Settle idx (Responded a)) s =
     s\<lparr>relay_state := (relay_state s)\<lparr>messages := (messages (relay_state s))
          [idx := (messages (relay_state s) ! idx)\<lparr>status := Forwarded, ack := Some (ack_or_unknown a)\<rparr>]\<rparr>,
       in_flight := removeAll idx (in_flight s)\<rparr>"
  by (simp add: step_def sms_receiver_settle_def)

lemma step_Settle_failed:
  "idx \<in> set (in_flight s) \<Longrightarrow>
   step (Settle idx (Failed e)) s =
     s\<lparr>relay_state := (relay_state s)\<lparr>messages := (messages (relay_state s))
          [idx := (messages (relay_state s) ! idx)\<lparr>status := Queued\<rparr>],
          retryQueue := retryQueue (relay_state s) @
            [\<lparr>item_id = msg_id (messages (relay_state s) ! idx),
              payload = raw (messages (relay_state s) ! idx), attempts = 0, lastError = e\<rparr>],
          isProcessingQueue := True\<rparr>,
       in_flight := removeAll idx (in_flight s)\<rparr>"
  by (simp add: step_def sms_receiver_settle_def processQueue_def Let_def)

lemma step_Settle_idle:
  "idx \<notin> set (in_flight s) \<Longrightarrow> step (Settle idx r) s = s"
  by (simp add: step_def)

lemma step_Retry_idle:
  "\<not> (isProcessingQueue (relay_state s) \<and> retryQueue (relay_state s) \<noteq> []) \<Longrightarrow>
   step (Retry r) s = s"
  by (simp add: step_def)

lemma step_Retry_failed:
  "isProcessingQueue (relay_state s) \<Longrightarrow> retryQueue (relay_state s) = item # rest \<Longrightarrow>
   step (Retry (Failed e)) s =
     s\<lparr>relay_state := (relay_state s)\<lparr>retryQueue :=
          item\<lparr>attempts := attempts item + 1, lastError := e\<rparr> # rest\<rparr>\<rparr>"
  by (simp add: step_def processQueue_body_failed)

lemma step_Retry_responded:
  assumes "relay_inv s" "isProcessingQueue (relay_state s)" "retryQueue (relay_state s) = item # rest"
  shows "step (Retry (Responded a)) s =
     s\<lparr>relay_state := (relay_state s)\<lparr>messages := (messages (relay_state s))
          [item_id item - 1 := (messages (relay_state s) ! (item_id item - 1))
               \<lparr>status := Forwarded, ack := Some (ack_or_unknown a)\<rparr>],
          retryQueue := rest, isProcessingQueue := rest \<noteq> []\<rparr>\<rparr>"
proof -
  let ?ms = "messages (relay_state s)"
  have it: "1 \<le> item_id item" "item_id item \<le> length ?ms"
    using relay_inv_queue [OF assms(1), of item] assms(3) by auto
  have "update_first (\<lambda>m. msg_id m = item_id item)
          (\<lambda>m. m\<lparr>status := Forwarded, ack := Some (ack_or_unknown a)\<rparr>) ?ms
        = ?ms[item_id item - 1 := (?ms ! (item_id item - 1))\<lparr>status := Forwarded, ack := Some (ack_or_unknown a)\<rparr>]"
  proof (rule update_first_nth)
    show "item_id item - 1 < length ?ms" using it by simp
    show "msg_id (?ms ! (item_id item - 1)) = item_id item"
      using relay_inv_ids [OF assms(1), of "item_id item - 1"] it by simp
    show "\<forall>j<item_id item - 1. msg_id (?ms ! j) \<noteq> item_id item"
      using relay_inv_ids [OF assms(1)] it by auto
  qed
  then show ?thesis
    using assms(2,3) by (cases "rest = []") (simp_all add: step_def processQueue_body_responded)
qed


lemma queued_not_in_flight:
  assumes "relay_inv s" "it \<in> set (retryQueue (relay_state s))" "idx \<in> set (in_flight s)"
  shows "item_id it - 1 \<noteq> idx" "item_id it \<noteq> idx + 1"
proof -
  show "item_id it - 1 \<noteq> idx"
    using relay_inv_queue [OF assms(1,2)] relay_inv_in_flight [OF assms(1,3)] by auto
  then show "item_id it \<noteq> idx + 1" by auto
qed


lemma relay_inv_Submit: "relay_inv s \<Longrightarrow> relay_inv (step (Submit p now) s)"
proof (cases "p = None \<or> p = Some []")
  case True
  assume "relay_inv s"
  with True show ?thesis by (simp add: step_Submit_rejected)
next
  case False
  assume inv: "relay_inv s"
  from False obtain x where p: "p = Some x" "x \<noteq> []" by (cases p) auto
  show ?thesis
    using inv unfolding step_Submit_accepted [OF p] relay_inv_def Let_def
    by (auto simp: nth_append)
qed

lemma relay_inv_Settle: "relay_inv s \<Longrightarrow> relay_inv (step (Settle idx r) s)"
proof (cases "idx \<in> set (in_flight s)")
  case False
  assume "relay_inv s"
  with False show ?thesis by (simp add: step_Settle_idle)
next
  case True
  assume inv: "relay_inv s"
  note fl = relay_inv_in_flight [OF inv True]
  have q: "\<forall>it \<in> set (retryQueue (relay_state s)). item_id it - 1 \<noteq> idx"
    using queued_not_in_flight(1) [OF inv _ True] by blast
  have fresh: "idx + 1 \<notin> item_id ` set (retryQueue (relay_state s))"
  proof
    assume "idx + 1 \<in> item_id ` set (retryQueue (relay_state s))"
    then obtain it where "it \<in> set (retryQueue (relay_state s))" "item_id it = idx + 1"
      by (auto simp: image_iff)
    with queued_not_in_flight(2) [OF inv _ True] show False by blast
  qed
  have id: "msg_id (messages (relay_state s) ! idx) = idx + 1"
    using relay_inv_ids [OF inv] fl by blast
  show ?thesis
  proof (cases r)
    case (Responded a)
    show ?thesis
      using inv fl q unfolding Responded step_Settle_responded [OF True] relay_inv_def Let_def
      by (auto simp: nth_list_update)
  next
    case (Failed e)
    show ?thesis
      using inv fl q fresh unfolding Failed step_Settle_failed [OF True] relay_inv_def Let_def
      by (auto simp: nth_list_update id)
  qed
qed

lemma relay_inv_Retry: "relay_inv s \<Longrightarrow> relay_inv (step (Retry r) s)"
proof (cases "isProcessingQueue (relay_state s) \<and> retryQueue (relay_state s) \<noteq> []")
  case False
  assume "relay_inv s"
  with False show ?thesis by (simp add: step_Retry_idle)
next
  case True
  assume inv: "relay_inv s"
  from True obtain item rest where q: "retryQueue (relay_state s) = item # rest"
    by (cases "retryQueue (relay_state s)") auto
  from True have p: "isProcessingQueue (relay_state s)" by simp
  show ?thesis
  proof (cases r)
    case (Failed e)
    show ?thesis
      using inv q unfolding Failed step_Retry_failed [OF p q] relay_inv_def Let_def
      by auto
  next
    case (Responded a)
    have head: "1 \<le> item_id item" "item_id item \<le> length (messages (relay_state s))"
      using relay_inv_queue [OF inv, of item] q by auto
    have others: "\<forall>it \<in> set rest. item_id it - 1 \<noteq> item_id item - 1"
    proof
      fix it assume it: "it \<in> set rest"
      have "item_id item \<notin> set (map item_id rest)"
        using relay_inv_distinct [OF inv] q by simp
      moreover have "item_id it \<in> set (map item_id rest)"
        using it by simp
      ultimately have "item_id it \<noteq> item_id item"
        by metis
      moreover have "1 \<le> item_id it"
        using relay_inv_queue [OF inv, of it] q it by auto
      ultimately show "item_id it - 1 \<noteq> item_id item - 1" using head by arith
    qed
    have fl: "\<forall>idx \<in> set (in_flight s). idx \<noteq> item_id item - 1"
      using queued_not_in_flight(1) [OF inv, of item] q by auto
    show ?thesis
      using inv q others fl unfolding Responded step_Retry_responded [OF inv p q] relay_inv_def Let_def
      by (auto simp: nth_list_update)
  qed
qed

lemma relay_inv_step: "relay_inv s \<Longrightarrow> relay_inv (step ev s)"
  by (cases ev) (simp_all add: relay_inv_Submit relay_inv_Settle relay_inv_Retry)

lemma relay_inv_run: "relay_inv s \<Longrightarrow> relay_inv (run evs s)"
  by (induction evs arbitrary: s) (simp_all add: relay_inv_step)

lemma relay_inv_reachable: "relay_inv (run evs initial_system)"
  by (rule relay_inv_run [OF relay_inv_initial])


lemma allowed_refl [simp]: "allowed a a"
  by (simp add: allowed_def)

lemma allowed_list_update:
  "allowed (status (ms ! k)) (status m') \<Longrightarrow> i < length ms \<Longrightarrow>
   allowed (status (ms ! i)) (status (ms[k := m'] ! i))"
  by (cases "i = k") simp_all

lemma step_statuses:
  assumes inv: "relay_inv s"
  shows "length (messages (relay_state s)) \<le> length (messages (relay_state (step ev s)))
    \<and> (\<forall>i < length (messages (relay_state s)).
          allowed (status (messages (relay_state s) ! i))
                  (status (messages (relay_state (step ev s)) ! i)))
    \<and> (\<forall>i. length (messages (relay_state s)) \<le> i
            \<and> i < length (messages (relay_state (step ev s)))
          \<longrightarrow> status (messages (relay_state (step ev s)) ! i) = Received)"
proof (cases ev)
  case (Submit p now)
  show ?thesis
  proof (cases "p = None \<or> p = Some []")
    case True
    then show ?thesis unfolding Submit by (auto simp: step_Submit_rejected)
  next
    case False
    then obtain x where p: "p = Some x" "x \<noteq> []" by (cases p) auto
    show ?thesis
      unfolding Submit step_Submit_accepted [OF p]
      by (auto simp: nth_append)
  qed
next
  case (Settle idx r)
  show ?thesis
  proof (cases "idx \<in> set (in_flight s)")
    case False
    then show ?thesis unfolding Settle by (auto simp: step_Settle_idle)
  next
    case True
    have fl: "status (messages (relay_state s) ! idx) = Received"
      using relay_inv_in_flight [OF inv True] by simp
    show ?thesis
    proof (cases r)
      case (Responded a)
      have "allowed (status (messages (relay_state s) ! idx))
              (status ((messages (relay_state s) ! idx)\<lparr>status := Forwarded, ack := Some (ack_or_unknown a)\<rparr>))"
        using fl by (simp add: allowed_def)
      then show ?thesis
        unfolding Settle Responded step_Settle_responded [OF True]
        by (auto simp: allowed_list_update)
    next
      case (Failed e)
      have "allowed (status (messages (relay_state s) ! idx))
              (status ((messages (relay_state s) ! idx)\<lparr>status := Queued\<rparr>))"
        using fl by (simp add: allowed_def)
      then show ?thesis
        unfolding Settle Failed step_Settle_failed [OF True]
        by (auto simp: allowed_list_update)
    qed
  qed
next
  case (Retry r)
  show ?thesis
  proof (cases "isProcessingQueue (relay_state s) \<and> retryQueue (relay_state s) \<noteq> []")
    case False
    then show ?thesis unfolding Retry by (auto simp: step_Retry_idle)
  next
    case True
    from True obtain item rest where q: "retryQueue (relay_state s) = item # rest"
      by (cases "retryQueue (relay_state s)") auto
    from True have p: "isProcessingQueue (relay_state s)" by simp
    show ?thesis
    proof (cases r)
      case (Failed e)
      show ?thesis
        unfolding Retry Failed step_Retry_failed [OF p q] by auto
    next
      case (Responded a)
      have "status (messages (relay_state s) ! (item_id item - 1)) = Queued"
        using relay_inv_queue [OF inv, of item] q by simp
      then have "allowed (status (messages (relay_state s) ! (item_id item - 1)))
              (status ((messages (relay_state s) ! (item_id item - 1))
                 \<lparr>status := Forwarded, ack := Some (ack_or_unknown a)\<rparr>))"
        by (simp add: allowed_def)
      then show ?thesis
        unfolding Retry Responded step_Retry_responded [OF inv p q]
        by (auto simp: allowed_list_update)
    qed
  qed
qed

lemma failed_first_forward_queues:
  assumes "relay_inv s" "idx \<in> set (in_flight s)"
  shows "status (messages (relay_state s) ! idx) = Received
       \<and> status (messages (relay_state (step (Settle idx (Failed e)) s)) ! idx) = Queued"
  using relay_inv_in_flight [OF assms] by (simp add: step_Settle_failed [OF assms(2)])

lemma first_forward_success_forwards:
  assumes "relay_inv s" "idx \<in> set (in_flight s)"
  shows "status (messages (relay_state s) ! idx) = Received
       \<and> status (messages (relay_state (step (Settle idx (Responded a)) s)) ! idx) = Forwarded"
  using relay_inv_in_flight [OF assms] by (simp add: step_Settle_responded [OF assms(2)])

lemma forwarded_is_terminal:
  "relay_inv s \<Longrightarrow> i < length (messages (relay_state s)) \<Longrightarrow>
   status (messages (relay_state s) ! i) = Forwarded \<Longrightarrow>
   i < length (messages (relay_state (run evs s)))
   \<and> status (messages (relay_state (run evs s)) ! i) = Forwarded"
proof (induction evs arbitrary: s)
  case Nil
  then show ?case by simp
next
  case (Cons ev evs)
  have "i < length (messages (relay_state (step ev s)))"
    using step_statuses [OF Cons.prems(1), of ev] Cons.prems(2) by simp
  moreover have "allowed (status (messages (relay_state s) ! i))
                  (status (messages (relay_state (step ev s)) ! i))"
    using step_statuses [OF Cons.prems(1), of ev] Cons.prems(2) by blast
  then have "status (messages (relay_state (step ev s)) ! i) = Forwarded"
    using Cons.prems(3) by (simp add: allowed_def)
  ultimately show ?case
    using Cons.IH [of "step ev s"] relay_inv_step [OF Cons.prems(1), of ev] by simp
qed

text \<open>
  C7: along every run of the relay from its initial state, a record is created with
  status \<open>received\<close>, and in one event its status either stays as it is or goes
  \<open>received \<rightarrow> forwarded\<close>, \<open>received \<rightarrow> queued\<close> or \<open>queued \<rightarrow> forwarded\<close>; no other change
  (such as \<open>forwarded \<rightarrow> queued\<close>) occurs. When the first forward of a record fails the
  record becomes \<open>queued\<close>, when it succeeds the record becomes \<open>forwarded\<close>, and a
  \<open>forwarded\<close> record stays \<open>forwarded\<close> whatever happens afterwards.
\<close>

theorem status_follows_two_paths:
  "let s = run evs initial_system;
       ms = messages (relay_state s);
       ms' = messages (relay_state (step ev s))
   in length ms \<le> length ms'
    \<and> (\<forall>i < length ms. allowed (status (ms ! i)) (status (ms' ! i)))
    \<and> (\<forall>i. length ms \<le> i \<and> i < length ms' \<longrightarrow> status (ms' ! i) = Received)
    \<and> (\<forall>idx e. ev = Settle idx (Failed e) \<and> idx \<in> set (in_flight s)
          \<longrightarrow> status (ms ! idx) = Received \<and> status (ms' ! idx) = Queued)
    \<and> (\<forall>idx a. ev = Settle idx (Responded a) \<and> idx \<in> set (in_flight s)
          \<longrightarrow> status (ms ! idx) = Received \<and> status (ms' ! idx) = Forwarded)
    \<and> (\<forall>i evs'. i < length ms \<and> status (ms ! i) = Forwarded
          \<longrightarrow> status (messages (relay_state (run evs' s)) ! i) = Forwarded)"
proof -
  have inv: "relay_inv (run evs initial_system)" by (rule relay_inv_reachable)
  show ?thesis
    unfolding Let_def
    using step_statuses [OF inv, of ev] failed_first_forward_queues [OF inv]
      first_forward_success_forwards [OF inv] forwarded_is_terminal [OF inv]
    by blast
qed

theorem status_follows_two_paths_witness:
  "status (messages (relay_state (run example_events initial_system)) ! 0) = Queued
   \<and> status (messages (relay_state (step (Retry (Responded (Some ''ACK|SAFEBASE=NONE'')))
        (run example_events initial_system))) ! 0) = Forwarded
   \<and> allowed Queued Forwarded"
  using status_follows_two_paths [of example_events "Retry (Responded (Some ''ACK|SAFEBASE=NONE''))"]
  by (simp add: example_events_def initial_system_def initial_relay_def step_def
      sms_receiver_accept_def sms_receiver_settle_def processQueue_def processQueue_body_def
      Let_def allowed_def)

subsection \<open>The handler of \<open>POST /sms-receiver\<close>\<close>

text \<open>
  C5: a request whose payload is absent or empty is answered 400 and leaves the records
  and the queue as they were. A request with a non-empty payload whose forward fails is
  answered 202; its record is stored with status \<open>queued\<close>, an item with \<open>attempts = 0\<close> is
  appended to the queue, and the processor is running afterwards, whether or not it was
  running before; calling \<open>processQueue\<close> once more changes nothing, whatever the
  forwards would answer.
\<close>

theorem sms_receiver_rejects_or_queues:
  "(p = None \<or> p = Some [] \<longrightarrow> sms_receiver p now r st = (Error400 ''missing payload'', st))
   \<and> (x \<noteq> [] \<longrightarrow>
        sms_receiver (Some x) now (Failed e) st =
          (Queued202,
           st\<lparr>messages := messages st @
                 [\<lparr>msg_id = length (messages st) + 1, raw = x, receivedAt = now,
                   status = Queued, ack = None\<rparr>],
               retryQueue := retryQueue st @
                 [\<lparr>item_id = length (messages st) + 1, payload = x, attempts = 0, lastError = e\<rparr>],
               isProcessingQueue := True\<rparr>)
        \<and> processQueue rs (snd (sms_receiver (Some x) now (Failed e) st)) =
            (snd (sms_receiver (Some x) now (Failed e) st), []))"
  by (auto simp: sms_receiver_def sms_receiver_accept_def sms_receiver_settle_def
      processQueue_def Let_def)

theorem sms_receiver_rejects_or_queues_witness:
  "sms_receiver (Some []) 7 (Responded (Some ''ACK'')) initial_relay
     = (Error400 ''missing payload'', initial_relay)
   \<and> sms_receiver (Some ''SOS'') 7 (Failed ''timeout'') initial_relay
     = (Queued202,
        \<lparr>messages = [\<lparr>msg_id = 1, raw = ''SOS'', receivedAt = 7, status = Queued, ack = None\<rparr>],
         retryQueue = [\<lparr>item_id = 1, payload = ''SOS'', attempts = 0, lastError = ''timeout''\<rparr>],
         isProcessingQueue = True\<rparr>)"
  using sms_receiver_rejects_or_queues
      [of "Some []" 7 "Responded (Some ''ACK'')" initial_relay "''SOS''" "''timeout''"]
  by (simp add: initial_relay_def)

text \<open>
  C10: a success response without an \<open>ack\<close> is still a success. On the immediate path
  the record is stored as \<open>forwarded\<close> with the ack \<open>ACK|UNKNOWN\<close> and that ack is
  returned with status 200; on the queued path the record the head refers to is marked
  \<open>forwarded\<close> with the ack \<open>ACK|UNKNOWN\<close> and the head is removed.
\<close>

theorem missing_ack_is_success:
  assumes "x \<noteq> []"
    and "retryQueue st = item # rest"
    and "i < length (messages st)"
    and "msg_id (messages st ! i) = item_id item"
    and "\<forall>j<i. msg_id (messages st ! j) \<noteq> item_id item"
  shows "sms_receiver (Some x) now (Responded None) st0 =
          (Ack200 ''ACK|UNKNOWN'',
           st0\<lparr>messages := messages st0 @
                 [\<lparr>msg_id = length (messages st0) + 1, raw = x, receivedAt = now,
                   status = Forwarded, ack = Some ''ACK|UNKNOWN''\<rparr>]\<rparr>)
       \<and> processQueue_body (Responded None) st =
          (st\<lparr>messages := (messages st)
                 [i := (messages st ! i)\<lparr>status := Forwarded, ack := Some ''ACK|UNKNOWN''\<rparr>],
              retryQueue := rest\<rparr>, None)"
proof -
  have "update_first (\<lambda>m. msg_id m = item_id item)
          (\<lambda>m. m\<lparr>status := Forwarded, ack := Some ''ACK|UNKNOWN''\<rparr>) (messages st)
        = (messages st)[i := (messages st ! i)\<lparr>status := Forwarded, ack := Some ''ACK|UNKNOWN''\<rparr>]"
    using assms(3,4,5) by (intro update_first_nth) auto
  then have "processQueue_body (Responded None) st =
          (st\<lparr>messages := (messages st)
                 [i := (messages st ! i)\<lparr>status := Forwarded, ack := Some ''ACK|UNKNOWN''\<rparr>],
              retryQueue := rest\<rparr>, None)"
    using assms(2) by (simp add: processQueue_body_responded ack_or_unknown_def)
  moreover have "sms_receiver (Some x) now (Responded None) st0 =
          (Ack200 ''ACK|UNKNOWN'',
           st0\<lparr>messages := messages st0 @
                 [\<lparr>msg_id = length (messages st0) + 1, raw = x, receivedAt = now,
                   status = Forwarded, ack = Some ''ACK|UNKNOWN''\<rparr>]\<rparr>)"
    using assms(1)
    by (simp add: sms_receiver_def sms_receiver_accept_def sms_receiver_settle_def ack_or_unknown_def)
  ultimately show ?thesis by simp
qed

theorem missing_ack_is_success_witness:
  "sms_receiver (Some ''SOS'') 7 (Responded None) initial_relay =
     (Ack200 ''ACK|UNKNOWN'',
      \<lparr>messages = [\<lparr>msg_id = 1, raw = ''SOS'', receivedAt = 7, status = Forwarded,
                     ack = Some ''ACK|UNKNOWN''\<rparr>],
       retryQueue = [], isProcessingQueue = False\<rparr>)
   \<and> messages (fst (processQueue_body (Responded None) example_relay)) =
       [\<lparr>msg_id = 1, raw = ''SOS|ID=A'', receivedAt = 10, status = Forwarded, ack = Some ''ACK|UNKNOWN''\<rparr>,
        \<lparr>msg_id = 2, raw = ''SOS|ID=B'', receivedAt = 11, status = Queued, ack = None\<rparr>]"
  using missing_ack_is_success
    [of "''SOS''" example_relay
        "\<lparr>item_id = 1, payload = ''SOS|ID=A'', attempts = 0, lastError = ''timeout''\<rparr>"
        "[\<lparr>item_id = 2, payload = ''SOS|ID=B'', attempts = 0, lastError = ''timeout''\<rparr>]"
        0 7 initial_relay]
  by (simp add: example_relay_def initial_relay_def processQueue_body_def ack_or_unknown_def)

section \<open>Properties of the command service\<close>

subsection \<open>The order of the numbers\<close>

lemma js_lt_irrefl: "\<not> js_lt x x"
  by (cases x) simp_all

lemma js_lt_trans: "js_lt x y \<Longrightarrow> js_lt y z \<Longrightarrow> js_lt x z"
  by (cases x; cases y; cases z) simp_all

lemma js_lt_asym: "js_lt x y \<Longrightarrow> \<not> js_lt y x"
  by (cases x; cases y) simp_all

lemma js_lt_PInf: "js_lt x PInf = (x \<noteq> NaN \<and> x \<noteq> PInf)"
  by (cases x) simp_all

subsection \<open>The haversine formula in the arithmetic of the real numbers\<close>

lemma cos_product:
  fixes m u :: real
  shows "cos (m - u) * cos (m + u) = (cos m)\<^sup>2 - (sin u)\<^sup>2"
proof -
  have "cos (m - u) * cos (m + u) = (cos m)\<^sup>2 * (cos u)\<^sup>2 - (sin m)\<^sup>2 * (sin u)\<^sup>2"
    by (simp add: cos_diff cos_add power2_eq_square algebra_simps)
  also have "\<dots> = (cos m)\<^sup>2 * (1 - (sin u)\<^sup>2) - (1 - (cos m)\<^sup>2) * (sin u)\<^sup>2"
    by (simp only: cos_squared_eq [of u] sin_squared_eq [of m])
  also have "\<dots> = (cos m)\<^sup>2 - (sin u)\<^sup>2"
    by (simp add: algebra_simps)
  finally show ?thesis .
qed

lemma hav_range:
  fixes l1 l2 w :: real
  defines "a \<equiv> (sin ((l2 - l1) / 2))\<^sup>2 + cos l1 * cos l2 * (sin w)\<^sup>2"
  shows "0 \<le> a" and "a \<le> 1"
proof -
  define u where "u = (l2 - l1) / 2"
  define m where "m = (l1 + l2) / 2"
  define s where "s = (sin w)\<^sup>2"
  have l: "l1 = m - u" "l2 = m + u" by (simp_all add: u_def m_def field_simps)
  have s: "0 \<le> s" "s \<le> 1" by (simp_all add: s_def abs_square_le_1)
  have su: "0 \<le> (sin u)\<^sup>2" "(sin u)\<^sup>2 \<le> 1" by (simp_all add: abs_square_le_1)
  have cm: "0 \<le> (cos m)\<^sup>2" "(cos m)\<^sup>2 \<le> 1" by (simp_all add: abs_square_le_1)
  have cc: "cos l1 * cos l2 = (cos m)\<^sup>2 - (sin u)\<^sup>2"
    unfolding l by (rule cos_product)
  have "a = (sin u)\<^sup>2 + cos l1 * cos l2 * s"
    by (simp add: a_def u_def s_def)
  also have "\<dots> = (sin u)\<^sup>2 * (1 - s) + (cos m)\<^sup>2 * s"
    unfolding cc by (simp add: algebra_simps)
  finally have a: "a = (sin u)\<^sup>2 * (1 - s) + (cos m)\<^sup>2 * s" .
  have "0 \<le> (sin u)\<^sup>2 * (1 - s)" using su s by simp
  moreover have "0 \<le> (cos m)\<^sup>2 * s" using cm s by simp
  ultimately show "0 \<le> a" unfolding a by linarith
  have "(sin u)\<^sup>2 * (1 - s) \<le> 1 - s"
    using mult_right_mono [of "(sin u)\<^sup>2" 1 "1 - s"] su s by simp
  moreover have "(cos m)\<^sup>2 * s \<le> s"
    using mult_right_mono [of "(cos m)\<^sup>2" 1 s] cm s by simp
  ultimately show "a \<le> 1" unfolding a by linarith
qed

lemma atan2_real_quadrant:
  assumes "0 \<le> y" "0 \<le> x"
  shows "0 \<le> atan2_real y x" and "atan2_real y x \<le> pi / 2"
proof -
  have "0 \<le> arctan (y / x)" using assms by simp
  moreover have "arctan (y / x) \<le> pi / 2" using arctan_ubound [of "y / x"] by simp
  ultimately show "0 \<le> atan2_real y x" and "atan2_real y x \<le> pi / 2"
    using assms by (auto simp: atan2_real_def)
qed

lemma great_circle_km_bounds:
  "0 \<le> great_circle_km lat1 lon1 lat2 lon2" "great_circle_km lat1 lon1 lat2 lon2 \<le> 6371 * pi"
proof -
  define a where "a = (sin ((lat2 * pi / 180 - lat1 * pi / 180) / 2))\<^sup>2
              + cos (lat1 * pi / 180) * cos (lat2 * pi / 180)
                * (sin ((lon2 - lon1) * pi / 180 / 2))\<^sup>2"
  have r: "0 \<le> a" "a \<le> 1" unfolding a_def by (rule hav_range)+
  have a': "(sin ((lat2 - lat1) * pi / 180 / 2))\<^sup>2
              + cos (lat1 * pi / 180) * cos (lat2 * pi / 180)
                * (sin ((lon2 - lon1) * pi / 180 / 2))\<^sup>2 = a"
    by (simp add: a_def algebra_simps diff_divide_distrib)
  have g: "great_circle_km lat1 lon1 lat2 lon2 = 2 * 6371 * atan2_real (sqrt a) (sqrt (1 - a))"
    unfolding great_circle_km_def a' by (simp add: Let_def)
  have q: "0 \<le> atan2_real (sqrt a) (sqrt (1 - a))" "atan2_real (sqrt a) (sqrt (1 - a)) \<le> pi / 2"
    using r atan2_real_quadrant [of "sqrt a" "sqrt (1 - a)"] by simp_all
  show "0 \<le> great_circle_km lat1 lon1 lat2 lon2" using q unfolding g by simp
  show "great_circle_km lat1 lon1 lat2 lon2 \<le> 6371 * pi" using q unfolding g by simp
qed

lemma exact_ops:
  "js_add exact_numerics (Fin x) (Fin y) = Fin (x + y)"
  "js_sub exact_numerics (Fin x) (Fin y) = Fin (x - y)"
  "js_mul exact_numerics (Fin x) (Fin y) = Fin (x * y)"
  "js_div exact_numerics (Fin x) (Fin 2) = Fin (x / 2)"
  "Math_sin exact_numerics (Fin x) = Fin (sin x)"
  "Math_cos exact_numerics (Fin x) = Fin (cos x)"
  "toRad exact_numerics (Fin x) = Fin (x * pi / 180)"
  by (simp_all add: exact_numerics_def js_sub_def toRad_def Math_PI_def)

lemma exact_sqrt: "0 \<le> x \<Longrightarrow> Math_sqrt exact_numerics (Fin x) = Fin (sqrt x)"
  by (simp add: exact_numerics_def)

lemma exact_atan2:
  "0 \<le> y \<Longrightarrow> 0 \<le> x \<Longrightarrow> Math_atan2 exact_numerics (Fin y) (Fin x) = Fin (atan2_real y x)"
  by (auto simp: exact_numerics_def atan2_real_def)

lemma haversine_exact:
  "haversine exact_numerics (Fin lat1) (Fin lon1) (Fin lat2) (Fin lon2)
     = Fin (great_circle_km lat1 lon1 lat2 lon2)"
proof -
  define a where "a = (sin ((lat2 * pi / 180 - lat1 * pi / 180) / 2))\<^sup>2
              + cos (lat1 * pi / 180) * cos (lat2 * pi / 180)
                * (sin ((lon2 - lon1) * pi / 180 / 2))\<^sup>2"
  have r: "0 \<le> a" "a \<le> 1" unfolding a_def by (rule hav_range)+
  have a': "(sin ((lat2 - lat1) * pi / 180 / 2))\<^sup>2
              + cos (lat1 * pi / 180) * cos (lat2 * pi / 180)
                * (sin ((lon2 - lon1) * pi / 180 / 2))\<^sup>2 = a"
    by (simp add: a_def algebra_simps diff_divide_distrib)
  let ?N = exact_numerics
  have code: "js_add ?N
                (js_mul ?N (Math_sin ?N (js_div ?N (toRad ?N (js_sub ?N (Fin lat2) (Fin lat1))) (Fin 2)))
                        (Math_sin ?N (js_div ?N (toRad ?N (js_sub ?N (Fin lat2) (Fin lat1))) (Fin 2))))
                (js_mul ?N
                  (js_mul ?N
                    (js_mul ?N (Math_cos ?N (toRad ?N (Fin lat1))) (Math_cos ?N (toRad ?N (Fin lat2))))
                    (Math_sin ?N (js_div ?N (toRad ?N (js_sub ?N (Fin lon2) (Fin lon1))) (Fin 2))))
                  (Math_sin ?N (js_div ?N (toRad ?N (js_sub ?N (Fin lon2) (Fin lon1))) (Fin 2)))) = Fin a"
    unfolding a' [symmetric]
    by (simp add: exact_ops power2_eq_square algebra_simps
        del: js_add.simps js_mul.simps js_div.simps Math_sin.simps Math_cos.simps)
  have g: "great_circle_km lat1 lon1 lat2 lon2 = 2 * 6371 * atan2_real (sqrt a) (sqrt (1 - a))"
    unfolding great_circle_km_def a' by (simp add: Let_def)
  have "Math_atan2 ?N (Math_sqrt ?N (Fin a)) (Math_sqrt ?N (js_sub ?N (Fin 1) (Fin a)))
          = Fin (atan2_real (sqrt a) (sqrt (1 - a)))"
    using r by (simp add: exact_ops exact_sqrt exact_atan2
        del: js_add.simps Math_sqrt.simps Math_atan2.simps)
  then show ?thesis
    unfolding haversine_def Let_def code g
    by (simp add: exact_ops del: js_mul.simps)
qed

lemma great_circle_km_self: "great_circle_km la lo la lo = 0"
  by (simp add: great_circle_km_def atan2_real_def)

lemma is_fin_val: "is_fin x \<Longrightarrow> x = Fin (fin_val x)"
  by (cases x) simp_all

lemma haversine_base_km:
  "is_fin (base_lat b) \<Longrightarrow> is_fin (base_lon b) \<Longrightarrow>
   haversine exact_numerics (Fin la) (Fin lo) (base_lat b) (base_lon b) = Fin (base_km la lo b)"
  using haversine_exact [of la lo "fin_val (base_lat b)" "fin_val (base_lon b)"]
  by (simp add: base_km_def is_fin_val [symmetric])

lemma base_km_self: "base_lat b = Fin la \<Longrightarrow> base_lon b = Fin lo \<Longrightarrow> base_km la lo b = 0"
  by (simp add: base_km_def great_circle_km_self)

lemma base_km_nonneg: "0 \<le> base_km la lo b"
  by (simp add: base_km_def great_circle_km_bounds)

text \<open>A non-finite alert latitude makes every distance \<open>NaN\<close>, in every arithmetic.\<close>

lemma toRad_infinite: "x = PInf \<or> x = NInf \<Longrightarrow> Math_sin N (js_div N (toRad N x) (Fin 2)) = NaN"
  by (auto simp: toRad_def Math_PI_def)

lemma haversine_infinite_lat: "haversine N PInf lo (Fin a) lo2 = NaN"
proof -
  have "js_sub N (Fin a) PInf = NInf" by (simp add: js_sub_def)
  then have "Math_sin N (js_div N (toRad N (js_sub N (Fin a) PInf)) (Fin 2)) = NaN"
    by (simp add: toRad_infinite)
  then show ?thesis
    by (simp add: haversine_def Let_def)
qed

subsection \<open>The scan for the nearest base\<close>

text \<open>
  The scan from an accumulator \<open>(n0, m0)\<close> either leaves it as it is, and then no
  computed distance is below \<open>m0\<close>, or ends on a base of the list: its distance is below
  \<open>m0\<close>, no base of the list has a smaller distance, and no earlier base an equal one.
\<close>

lemma nearest_scan_result:
  "(nearest_scan N la lo bs (n0, m0) = (n0, m0)
      \<and> (\<forall>x \<in> set bs. \<not> js_lt (haversine N la lo (base_lat x) (base_lon x)) m0))
   \<or> (\<exists>pre b post. bs = pre @ b # post
        \<and> nearest_scan N la lo bs (n0, m0) = (Some b, haversine N la lo (base_lat b) (base_lon b))
        \<and> js_lt (haversine N la lo (base_lat b) (base_lon b)) m0
        \<and> (\<forall>x \<in> set pre.
              \<not> js_lt (haversine N la lo (base_lat x) (base_lon x))
                       (haversine N la lo (base_lat b) (base_lon b))
              \<and> haversine N la lo (base_lat x) (base_lon x)
                  \<noteq> haversine N la lo (base_lat b) (base_lon b))
        \<and> (\<forall>x \<in> set post.
              \<not> js_lt (haversine N la lo (base_lat x) (base_lon x))
                       (haversine N la lo (base_lat b) (base_lon b))))"
proof (induction bs arbitrary: n0 m0)
  case Nil
  then show ?case by simp
next
  case (Cons c bs)
  let ?d = "\<lambda>x. haversine N la lo (base_lat x) (base_lon x)"
  show ?case
  proof (cases "js_lt (?d c) m0")
    case True
    have unfold: "nearest_scan N la lo (c # bs) (n0, m0) = nearest_scan N la lo bs (Some c, ?d c)"
      using True by simp
    have "\<exists>pre b post. c # bs = pre @ b # post
        \<and> nearest_scan N la lo (c # bs) (n0, m0) = (Some b, ?d b)
        \<and> js_lt (?d b) m0
        \<and> (\<forall>x \<in> set pre. \<not> js_lt (?d x) (?d b) \<and> ?d x \<noteq> ?d b)
        \<and> (\<forall>x \<in> set post. \<not> js_lt (?d x) (?d b))"
      using Cons.IH [of "Some c" "?d c"]
    proof
      assume keep: "nearest_scan N la lo bs (Some c, ?d c) = (Some c, ?d c)
          \<and> (\<forall>x \<in> set bs. \<not> js_lt (?d x) (?d c))"
      show ?thesis
        by (rule exI [of _ "[]"], rule exI [of _ c], rule exI [of _ bs])
           (use keep True unfold in simp)
    next
      assume "\<exists>pre b post. bs = pre @ b # post
        \<and> nearest_scan N la lo bs (Some c, ?d c) = (Some b, ?d b)
        \<and> js_lt (?d b) (?d c)
        \<and> (\<forall>x \<in> set pre. \<not> js_lt (?d x) (?d b) \<and> ?d x \<noteq> ?d b)
        \<and> (\<forall>x \<in> set post. \<not> js_lt (?d x) (?d b))"
      then obtain pre b post where p: "bs = pre @ b # post"
          "nearest_scan N la lo bs (Some c, ?d c) = (Some b, ?d b)"
          "js_lt (?d b) (?d c)"
          "\<forall>x \<in> set pre. \<not> js_lt (?d x) (?d b) \<and> ?d x \<noteq> ?d b"
          "\<forall>x \<in> set post. \<not> js_lt (?d x) (?d b)"
        by blast
      have below: "js_lt (?d b) m0" using p(3) True by (rule js_lt_trans)
      have c1: "\<not> js_lt (?d c) (?d b)" using p(3) by (rule js_lt_asym)
      have c2: "?d c \<noteq> ?d b" using p(3) js_lt_irrefl [of "?d b"] by auto
      show ?thesis
        by (rule exI [of _ "c # pre"], rule exI [of _ b], rule exI [of _ post])
           (use p below c1 c2 unfold in simp)
    qed
    then show ?thesis by (rule disjI2)
  next
    case False
    have unfold: "nearest_scan N la lo (c # bs) (n0, m0) = nearest_scan N la lo bs (n0, m0)"
      using False by simp
    from Cons.IH [of n0 m0]
    show ?thesis
    proof
      assume "nearest_scan N la lo bs (n0, m0) = (n0, m0)
          \<and> (\<forall>x \<in> set bs. \<not> js_lt (?d x) m0)"
      with False unfold show ?thesis by simp
    next
      assume "\<exists>pre b post. bs = pre @ b # post
        \<and> nearest_scan N la lo bs (n0, m0) = (Some b, ?d b)
        \<and> js_lt (?d b) m0
        \<and> (\<forall>x \<in> set pre. \<not> js_lt (?d x) (?d b) \<and> ?d x \<noteq> ?d b)
        \<and> (\<forall>x \<in> set post. \<not> js_lt (?d x) (?d b))"
      then obtain pre b post where p: "bs = pre @ b # post"
          "nearest_scan N la lo bs (n0, m0) = (Some b, ?d b)"
          "js_lt (?d b) m0"
          "\<forall>x \<in> set pre. \<not> js_lt (?d x) (?d b) \<and> ?d x \<noteq> ?d b"
          "\<forall>x \<in> set post. \<not> js_lt (?d x) (?d b)"
        by blast
      have c1: "\<not> js_lt (?d c) (?d b)"
        using False p(3) js_lt_trans [of "?d c" "?d b" m0] by blast
      have c2: "?d c \<noteq> ?d b" using False p(3) by auto
      have "\<exists>pre b post. c # bs = pre @ b # post
        \<and> nearest_scan N la lo (c # bs) (n0, m0) = (Some b, ?d b)
        \<and> js_lt (?d b) m0
        \<and> (\<forall>x \<in> set pre. \<not> js_lt (?d x) (?d b) \<and> ?d x \<noteq> ?d b)
        \<and> (\<forall>x \<in> set post. \<not> js_lt (?d x) (?d b))"
        by (rule exI [of _ "c # pre"], rule exI [of _ b], rule exI [of _ post])
           (use p c1 c2 unfold in simp)
      then show ?thesis by (rule disjI2)
    qed
  qed
qed

subsection \<open>The handler when no database call rejects\<close>

lemma sos_accepted:
  assumes "txt \<noteq> []" and "\<forall>c. \<not> rejects e c"
  shows "sos e (Some txt) d =
           \<lparr>response = SosAck (resolve_ack (arithmetic e)
                                 (parse_emergency (arithmetic e) (now_iso e) txt) (safe_bases d)),
            db_after = d\<lparr>sms_logs := sms_logs d @ [(txt, now_ms e)],
                         sos_events := sos_events d
                           @ [sos_event_of (parse_emergency (arithmetic e) (now_iso e) txt)]\<rparr>,
            broadcast = map (\<lambda>c. ws_event_of (parse_emergency (arithmetic e) (now_iso e) txt)
                                   (resolve_ack (arithmetic e)
                                      (parse_emergency (arithmetic e) (now_iso e) txt) (safe_bases d)))
                          (filter (\<lambda>c. c) (clients_open e))\<rparr>"
  using assms by (simp add: sos_def Let_def)


subsection \<open>The nearest base\<close>

lemma build_ack_None:
  "build_ack N None PInf = ''ACK|SAFEBASE=NONE|DIST=InfinityKM|CAPACITY=AVAILABLE''"
  by (simp add: build_ack_def capacityStatus_def)

lemma resolve_ack_cases:
  "((\<forall>x \<in> set bs. \<not> js_lt (haversine N (lat pe) (lon pe) (base_lat x) (base_lon x)) PInf)
      \<and> nearest_scan N (lat pe) (lon pe) bs (None, PInf) = (None, PInf)
      \<and> resolve_ack N pe bs = ''ACK|SAFEBASE=NONE|DIST=InfinityKM|CAPACITY=AVAILABLE'')
   \<or> (\<exists>pre b post. bs = pre @ b # post
        \<and> js_lt (haversine N (lat pe) (lon pe) (base_lat b) (base_lon b)) PInf
        \<and> (\<forall>x \<in> set pre.
              \<not> js_lt (haversine N (lat pe) (lon pe) (base_lat x) (base_lon x))
                       (haversine N (lat pe) (lon pe) (base_lat b) (base_lon b))
              \<and> haversine N (lat pe) (lon pe) (base_lat x) (base_lon x)
                  \<noteq> haversine N (lat pe) (lon pe) (base_lat b) (base_lon b))
        \<and> (\<forall>x \<in> set post.
              \<not> js_lt (haversine N (lat pe) (lon pe) (base_lat x) (base_lon x))
                       (haversine N (lat pe) (lon pe) (base_lat b) (base_lon b)))
        \<and> nearest_scan N (lat pe) (lon pe) bs (None, PInf)
            = (Some b, haversine N (lat pe) (lon pe) (base_lat b) (base_lon b))
        \<and> resolve_ack N pe bs
            = build_ack N (Some b) (haversine N (lat pe) (lon pe) (base_lat b) (base_lon b)))"
  using nearest_scan_result [of N "lat pe" "lon pe" bs None PInf]
proof
  assume "nearest_scan N (lat pe) (lon pe) bs (None, PInf) = (None, PInf)
      \<and> (\<forall>x \<in> set bs. \<not> js_lt (haversine N (lat pe) (lon pe) (base_lat x) (base_lon x)) PInf)"
  then show ?thesis by (simp add: resolve_ack_def build_ack_None)
next
  let ?d = "\<lambda>x. haversine N (lat pe) (lon pe) (base_lat x) (base_lon x)"
  assume "\<exists>pre b post. bs = pre @ b # post
        \<and> nearest_scan N (lat pe) (lon pe) bs (None, PInf) = (Some b, ?d b)
        \<and> js_lt (?d b) PInf
        \<and> (\<forall>x \<in> set pre. \<not> js_lt (?d x) (?d b) \<and> ?d x \<noteq> ?d b)
        \<and> (\<forall>x \<in> set post. \<not> js_lt (?d x) (?d b))"
  then obtain pre b post where p: "bs = pre @ b # post"
      "nearest_scan N (lat pe) (lon pe) bs (None, PInf) = (Some b, ?d b)"
      "js_lt (?d b) PInf"
      "\<forall>x \<in> set pre. \<not> js_lt (?d x) (?d b) \<and> ?d x \<noteq> ?d b"
      "\<forall>x \<in> set post. \<not> js_lt (?d x) (?d b)"
    by blast
  have "\<exists>pre b post. bs = pre @ b # post
        \<and> js_lt (?d b) PInf
        \<and> (\<forall>x \<in> set pre. \<not> js_lt (?d x) (?d b) \<and> ?d x \<noteq> ?d b)
        \<and> (\<forall>x \<in> set post. \<not> js_lt (?d x) (?d b))
        \<and> nearest_scan N (lat pe) (lon pe) bs (None, PInf) = (Some b, ?d b)
        \<and> resolve_ack N pe bs = build_ack N (Some b) (?d b)"
    by (rule exI [of _ pre], rule exI [of _ b], rule exI [of _ post])
       (use p in \<open>simp add: resolve_ack_def\<close>)
  then show ?thesis by (rule disjI2)
qed

lemma resolve_ack_none:
  assumes "\<forall>x \<in> set bs. \<not> js_lt (haversine N (lat pe) (lon pe) (base_lat x) (base_lon x)) PInf"
  shows "resolve_ack N pe bs = ''ACK|SAFEBASE=NONE|DIST=InfinityKM|CAPACITY=AVAILABLE''"
  using resolve_ack_cases [of bs N pe]
proof (elim disjE exE conjE)
  fix pre b post
  assume "bs = pre @ b # post"
    and "js_lt (haversine N (lat pe) (lon pe) (base_lat b) (base_lon b)) PInf"
  with assms show ?thesis by simp
qed

text \<open>
  C1 (amended): the scan passes over every base whose computed haversine distance is not
  a number below \<open>Infinity\<close> (a \<open>NaN\<close>, as non-finite coordinates give). If no base is
  left, in particular if the directory is empty, the ack names \<open>NONE\<close> with capacity
  \<open>AVAILABLE\<close>. Otherwise the ack names the first base, in directory order, whose computed
  distance is minimal: no base has a smaller computed distance and no earlier base an
  equal one. This holds whatever the rounding of the arithmetic; the distance computed
  is the specification's formula with Earth radius 6371 km, which it equals when the
  arithmetic is exact.
\<close>

theorem nearest_base_in_ack:
  assumes "txt \<noteq> []" and "\<forall>c. \<not> rejects e c"
  shows "let N = arithmetic e;
             pe = parse_emergency N (now_iso e) txt;
             dist = (\<lambda>x. haversine N (lat pe) (lon pe) (base_lat x) (base_lon x))
         in ((\<forall>x \<in> set (safe_bases d). \<not> js_lt (dist x) PInf) \<longrightarrow>
               response (sos e (Some txt) d)
                 = SosAck ''ACK|SAFEBASE=NONE|DIST=InfinityKM|CAPACITY=AVAILABLE'')
          \<and> ((\<exists>x \<in> set (safe_bases d). js_lt (dist x) PInf) \<longrightarrow>
               (\<exists>pre b post. safe_bases d = pre @ b # post
                  \<and> js_lt (dist b) PInf
                  \<and> (\<forall>x \<in> set pre. \<not> js_lt (dist x) (dist b) \<and> dist x \<noteq> dist b)
                  \<and> (\<forall>x \<in> set post. \<not> js_lt (dist x) (dist b))
                  \<and> response (sos e (Some txt) d)
                      = SosAck (''ACK|SAFEBASE='' @ base_id b @ ''|DIST=''
                                @ toFixed2 N (dist b) @ ''KM|CAPACITY=''
                                @ capacityStatus (Some b))))
          \<and> haversine exact_numerics (Fin lat1) (Fin lon1) (Fin lat2) (Fin lon2)
              = Fin (great_circle_km lat1 lon1 lat2 lon2)"
proof -
  let ?N = "arithmetic e"
  let ?pe = "parse_emergency ?N (now_iso e) txt"
  let ?d = "\<lambda>x. haversine ?N (lat ?pe) (lon ?pe) (base_lat x) (base_lon x)"
  have resp: "response (sos e (Some txt) d) = SosAck (resolve_ack ?N ?pe (safe_bases d))"
    by (simp add: sos_accepted [OF assms])
  have none: "(\<forall>x \<in> set (safe_bases d). \<not> js_lt (?d x) PInf) \<longrightarrow>
               response (sos e (Some txt) d)
                 = SosAck ''ACK|SAFEBASE=NONE|DIST=InfinityKM|CAPACITY=AVAILABLE''"
  proof
    assume all: "\<forall>x \<in> set (safe_bases d). \<not> js_lt (?d x) PInf"
    from resolve_ack_cases [of "safe_bases d" ?N ?pe]
    show "response (sos e (Some txt) d)
            = SosAck ''ACK|SAFEBASE=NONE|DIST=InfinityKM|CAPACITY=AVAILABLE''"
    proof
      assume "(\<forall>x \<in> set (safe_bases d). \<not> js_lt (?d x) PInf)
        \<and> nearest_scan ?N (lat ?pe) (lon ?pe) (safe_bases d) (None, PInf) = (None, PInf)
        \<and> resolve_ack ?N ?pe (safe_bases d) = ''ACK|SAFEBASE=NONE|DIST=InfinityKM|CAPACITY=AVAILABLE''"
      then show ?thesis by (simp add: resp)
    next
      assume "\<exists>pre b post. safe_bases d = pre @ b # post
        \<and> js_lt (?d b) PInf
        \<and> (\<forall>x \<in> set pre. \<not> js_lt (?d x) (?d b) \<and> ?d x \<noteq> ?d b)
        \<and> (\<forall>x \<in> set post. \<not> js_lt (?d x) (?d b))
        \<and> nearest_scan ?N (lat ?pe) (lon ?pe) (safe_bases d) (None, PInf) = (Some b, ?d b)
        \<and> resolve_ack ?N ?pe (safe_bases d) = build_ack ?N (Some b) (?d b)"
      then obtain pre b post where "safe_bases d = pre @ b # post" "js_lt (?d b) PInf"
        by blast
      with all show ?thesis by simp
    qed
  qed
  have some: "(\<exists>x \<in> set (safe_bases d). js_lt (?d x) PInf) \<longrightarrow>
               (\<exists>pre b post. safe_bases d = pre @ b # post
                  \<and> js_lt (?d b) PInf
                  \<and> (\<forall>x \<in> set pre. \<not> js_lt (?d x) (?d b) \<and> ?d x \<noteq> ?d b)
                  \<and> (\<forall>x \<in> set post. \<not> js_lt (?d x) (?d b))
                  \<and> response (sos e (Some txt) d)
                      = SosAck (''ACK|SAFEBASE='' @ base_id b @ ''|DIST=''
                                @ toFixed2 ?N (?d b) @ ''KM|CAPACITY=''
                                @ capacityStatus (Some b)))"
  proof
    assume ex: "\<exists>x \<in> set (safe_bases d). js_lt (?d x) PInf"
    from resolve_ack_cases [of "safe_bases d" ?N ?pe]
    show "\<exists>pre b post. safe_bases d = pre @ b # post
                  \<and> js_lt (?d b) PInf
                  \<and> (\<forall>x \<in> set pre. \<not> js_lt (?d x) (?d b) \<and> ?d x \<noteq> ?d b)
                  \<and> (\<forall>x \<in> set post. \<not> js_lt (?d x) (?d b))
                  \<and> response (sos e (Some txt) d)
                      = SosAck (''ACK|SAFEBASE='' @ base_id b @ ''|DIST=''
                                @ toFixed2 ?N (?d b) @ ''KM|CAPACITY=''
                                @ capacityStatus (Some b))"
    proof
      assume "(\<forall>x \<in> set (safe_bases d). \<not> js_lt (?d x) PInf)
        \<and> nearest_scan ?N (lat ?pe) (lon ?pe) (safe_bases d) (None, PInf) = (None, PInf)
        \<and> resolve_ack ?N ?pe (safe_bases d) = ''ACK|SAFEBASE=NONE|DIST=InfinityKM|CAPACITY=AVAILABLE''"
      with ex show ?thesis by blast
    next
      assume "\<exists>pre b post. safe_bases d = pre @ b # post
        \<and> js_lt (?d b) PInf
        \<and> (\<forall>x \<in> set pre. \<not> js_lt (?d x) (?d b) \<and> ?d x \<noteq> ?d b)
        \<and> (\<forall>x \<in> set post. \<not> js_lt (?d x) (?d b))
        \<and> nearest_scan ?N (lat ?pe) (lon ?pe) (safe_bases d) (None, PInf) = (Some b, ?d b)
        \<and> resolve_ack ?N ?pe (safe_bases d) = build_ack ?N (Some b) (?d b)"
      then obtain pre b post where p: "safe_bases d = pre @ b # post"
          "js_lt (?d b) PInf"
          "\<forall>x \<in> set pre. \<not> js_lt (?d x) (?d b) \<and> ?d x \<noteq> ?d b"
          "\<forall>x \<in> set post. \<not> js_lt (?d x) (?d b)"
          "resolve_ack ?N ?pe (safe_bases d) = build_ack ?N (Some b) (?d b)"
        by blast
      show ?thesis
        by (rule exI [of _ pre], rule exI [of _ b], rule exI [of _ post])
           (use p in \<open>simp add: resp build_ack_def\<close>)
    qed
  qed
  show ?thesis
    unfolding Let_def using none some haversine_exact [of lat1 lon1 lat2 lon2] by blast
qed

text \<open>Evaluating the parser on concrete alerts, in the arithmetic of the real numbers.\<close>

lemma exact_fields:
  "to_number exact_numerics x = Fin x"
  "PI_value exact_numerics = pi"
  by (simp_all add: exact_numerics_def)

lemmas parse_eval =
  parse_emergency_def parse_payload_def parse_token_def or_default_def or_zero_def
  parseFloat_prop_def parseFloat_def is_space_def is_digit_def digits_val_def digit_val_def
  exponent_part_def exact_fields Let_def

lemma parse_scenario_A:
  "parse_emergency exact_numerics stamp
     ''SOS|ID=HX001|LAT=12.8296|LON=80.2270|DIR=NE|TYPE=TSUNAMI|TIME=T''
   = \<lparr>deviceId = ''HX001'', lat = Fin 12.8296, lon = Fin 80.2270, type = ''TSUNAMI'', time = ''T''\<rparr>"
  by (simp add: parse_eval)

lemma parse_infinite_lat:
  "lat (parse_emergency N stamp ''SOS|ID=HX001|LAT=Infinity|LON=80.2270'') = PInf"
  by (simp add: parse_emergency_def parse_payload_def parse_token_def or_zero_def
      parseFloat_prop_def parseFloat_def is_space_def is_digit_def Let_def)

lemma example_env_accepts: "\<forall>c. \<not> rejects example_env c"
  by (simp add: example_env_def)

text \<open>
  The alert \<open>SOS|ID=HX001|LAT=Infinity|LON=80.2270\<close> is answered with \<open>NONE\<close> by every
  arithmetic, whenever the latitudes of the bases are finite.
\<close>

lemma infinite_latitude_names_no_base:
  assumes "\<forall>c. \<not> rejects e c" and "\<forall>b \<in> set (safe_bases d). is_fin (base_lat b)"
  shows "response (sos e (Some ''SOS|ID=HX001|LAT=Infinity|LON=80.2270'') d)
           = SosAck ''ACK|SAFEBASE=NONE|DIST=InfinityKM|CAPACITY=AVAILABLE''"
proof -
  let ?N = "arithmetic e"
  let ?pe = "parse_emergency ?N (now_iso e) ''SOS|ID=HX001|LAT=Infinity|LON=80.2270''"
  have "\<forall>x \<in> set (safe_bases d). \<not> js_lt (haversine ?N (lat ?pe) (lon ?pe) (base_lat x) (base_lon x)) PInf"
  proof
    fix x assume "x \<in> set (safe_bases d)"
    then have "is_fin (base_lat x)" using assms(2) by simp
    then obtain a where "base_lat x = Fin a" by (cases "base_lat x") simp_all
    then show "\<not> js_lt (haversine ?N (lat ?pe) (lon ?pe) (base_lat x) (base_lon x)) PInf"
      by (simp add: parse_infinite_lat haversine_infinite_lat)
  qed
  then have "resolve_ack ?N ?pe (safe_bases d) = ''ACK|SAFEBASE=NONE|DIST=InfinityKM|CAPACITY=AVAILABLE''"
    by (rule resolve_ack_none)
  then show ?thesis
    by (simp add: sos_accepted [OF _ assms(1)])
qed

theorem nearest_base_infinite_latitude:
  "safe_bases example_db \<noteq> []
   \<and> lat (parse_emergency (arithmetic example_env) (now_iso example_env)
            ''SOS|ID=HX001|LAT=Infinity|LON=80.2270'') = PInf
   \<and> response (sos example_env (Some ''SOS|ID=HX001|LAT=Infinity|LON=80.2270'') example_db)
       = SosAck ''ACK|SAFEBASE=NONE|DIST=InfinityKM|CAPACITY=AVAILABLE''"
  using infinite_latitude_names_no_base [OF example_env_accepts, of example_db]
  by (simp add: parse_infinite_lat example_db_def preloaded_bases_def)


lemma example_env_arithmetic: "arithmetic example_env = exact_numerics"
  by (simp add: example_env_def)

theorem nearest_base_in_ack_witness:
  "''SOS|ID=HX001|LAT=12.8296|LON=80.2270|DIR=NE|TYPE=TSUNAMI|TIME=T'' \<noteq> []
   \<and> (\<forall>c. \<not> rejects example_env c)
   \<and> (\<exists>x \<in> set (safe_bases example_db).
         js_lt (haversine exact_numerics (Fin 12.8296) (Fin 80.2270) (base_lat x) (base_lon x)) PInf)
   \<and> response (sos example_env
        (Some ''SOS|ID=HX001|LAT=12.8296|LON=80.2270|DIR=NE|TYPE=TSUNAMI|TIME=T'') example_db)
      = SosAck ''ACK|SAFEBASE=BASE_SHOLI|DIST=0.00KM|CAPACITY=AVAILABLE''"
proof -
  let ?txt = "''SOS|ID=HX001|LAT=12.8296|LON=80.2270|DIR=NE|TYPE=TSUNAMI|TIME=T''"
  let ?S = "\<lparr>base_id = ''BASE_SHOLI'', base_name = ''Sholinganallur Safe Base'',
       base_lat = Fin 12.8296, base_lon = Fin 80.2270, capacity = 100, filled = 10\<rparr>"
  let ?T = "\<lparr>base_id = ''BASE_SATHYA'', base_name = ''Sathyabama University'',
       base_lat = Fin 13.0520, base_lon = Fin 80.2043, capacity = 80, filled = 70\<rparr>"
  let ?d = "\<lambda>x. haversine exact_numerics (Fin 12.8296) (Fin 80.2270) (base_lat x) (base_lon x)"
  have bases: "safe_bases example_db = [?S, ?T]"
    by (simp add: example_db_def preloaded_bases_def)
  have fin: "\<forall>x \<in> set (safe_bases example_db). ?d x = Fin (base_km 12.8296 80.2270 x)"
    unfolding bases by (simp add: haversine_exact base_km_def)
  have zero: "base_km 12.8296 80.2270 ?S = 0"
    by (rule base_km_self) simp_all
  have near: "\<exists>x \<in> set (safe_bases example_db). js_lt (?d x) PInf"
    unfolding bases by (simp add: haversine_exact)
  have ne: "?txt \<noteq> []" by simp
  have "(\<exists>x \<in> set (safe_bases example_db). js_lt (?d x) PInf) \<longrightarrow>
          (\<exists>pre b post. safe_bases example_db = pre @ b # post
             \<and> js_lt (?d b) PInf
             \<and> (\<forall>x \<in> set pre. \<not> js_lt (?d x) (?d b) \<and> ?d x \<noteq> ?d b)
             \<and> (\<forall>x \<in> set post. \<not> js_lt (?d x) (?d b))
             \<and> response (sos example_env (Some ?txt) example_db)
                 = SosAck (''ACK|SAFEBASE='' @ base_id b @ ''|DIST=''
                           @ toFixed2 exact_numerics (?d b) @ ''KM|CAPACITY=''
                           @ capacityStatus (Some b)))"
    using nearest_base_in_ack [OF ne example_env_accepts, of example_db 0 0 0 0]
    by (simp add: Let_def example_env_arithmetic parse_scenario_A)
  with near obtain pre b post where p: "safe_bases example_db = pre @ b # post"
      "\<forall>x \<in> set pre. \<not> js_lt (?d x) (?d b) \<and> ?d x \<noteq> ?d b"
      "response (sos example_env (Some ?txt) example_db)
          = SosAck (''ACK|SAFEBASE='' @ base_id b @ ''|DIST=''
                    @ toFixed2 exact_numerics (?d b) @ ''KM|CAPACITY=''
                    @ capacityStatus (Some b))"
    by blast
  have b: "b = ?S"
  proof (cases pre)
    case Nil
    with p(1) show ?thesis by (simp add: bases)
  next
    case (Cons x xs)
    with p(1) have x: "x = ?S" by (simp add: bases)
    have "b \<in> set (safe_bases example_db)" using p(1) by simp
    with fin have db: "?d b = Fin (base_km 12.8296 80.2270 b)" by blast
    have "x \<in> set (safe_bases example_db)" using p(1) Cons by simp
    with fin have "?d x = Fin (base_km 12.8296 80.2270 x)" by blast
    with x zero have dx: "?d x = Fin 0" by simp
    from p(2) Cons have "\<not> js_lt (?d x) (?d b) \<and> ?d x \<noteq> ?d b" by simp
    then have "\<not> 0 < base_km 12.8296 80.2270 b \<and> 0 \<noteq> base_km 12.8296 80.2270 b"
      unfolding dx db by simp
    with base_km_nonneg [of "12.8296" "80.2270" b] show ?thesis by simp
  qed
  have "?d ?S = Fin 0" using haversine_base_km [of ?S "12.8296" "80.2270"] zero by simp
  with p(3) b have "response (sos example_env (Some ?txt) example_db)
      = SosAck ''ACK|SAFEBASE=BASE_SHOLI|DIST=0.00KM|CAPACITY=AVAILABLE''"
    by (simp add: dec_digits.simps digit_char_def capacityStatus_def)
  with near example_env_accepts show ?thesis by simp
qed

subsection \<open>The form of the ack\<close>



















subsection \<open>The capacity classification\<close>

lemma capacityStatus_spec: "capacityStatus (Some b) = capacity_status_spec (capacity b) (filled b)"
  by (simp add: capacityStatus_def capacity_status_spec_def)

lemma below_fifth: "(free < \<lceil>real_of_int cap * 0.2\<rceil>) = (5 * free < cap)"
proof -
  have "(free < \<lceil>real_of_int cap * 0.2\<rceil>) = (real_of_int free < real_of_int cap * 0.2)"
    by (rule less_ceiling_iff)
  also have "\<dots> = (real_of_int (5 * free) < real_of_int cap)"
    by (simp add: mult.commute)
  also have "\<dots> = (5 * free < cap)"
    by (rule of_int_less_iff)
  finally show ?thesis .
qed

lemma capacity_status_spec_int:
  "capacity_status_spec cap fil =
     (if cap \<le> fil then ''FULL''
      else if 5 * (cap - fil) < cap then ''NEARLY_FULL'' else ''AVAILABLE'')"
proof -
  have "capacity_status_spec cap fil =
     (if cap - fil \<le> 0 then ''FULL''
      else if 5 * (cap - fil) < cap then ''NEARLY_FULL'' else ''AVAILABLE'')"
    unfolding capacity_status_spec_def Let_def below_fifth ..
  then show ?thesis by simp
qed

lemma colorForCapacity_status:
  "(colorForCapacity cap fil = ''red'') = (capacity_status_spec cap fil = ''FULL'')"
  "(colorForCapacity cap fil = ''yellow'') = (capacity_status_spec cap fil = ''NEARLY_FULL'')"
  "(colorForCapacity cap fil = ''green'') = (capacity_status_spec cap fil = ''AVAILABLE'')"
  by (simp_all add: colorForCapacity_def capacity_status_spec_def Let_def)

text \<open>
  C2: the capacity status in the ack depends only on \<open>capacity\<close> and \<open>filled\<close> of the base
  selected as nearest, and is the three-way classification: with
  \<open>free = capacity - filled\<close>, \<open>FULL\<close> when \<open>free \<le> 0\<close>, else \<open>NEARLY_FULL\<close> when
  \<open>free < ceil(capacity * 0.2)\<close>, else \<open>AVAILABLE\<close>. On integers the middle test is
  \<open>5 * free < capacity\<close>, and the colours of the monitoring page follow the same
  classification.
\<close>

theorem capacity_status_in_ack:
  assumes "txt \<noteq> []" and "\<forall>c. \<not> rejects e c"
    and "nearest_scan (arithmetic e) (lat (parse_emergency (arithmetic e) (now_iso e) txt)) (lon (parse_emergency (arithmetic e) (now_iso e) txt))
           (safe_bases d) (None, PInf) = (Some b, minD)"
  shows "response (sos e (Some txt) d)
           = SosAck (''ACK|SAFEBASE='' @ base_id b @ ''|DIST='' @ toFixed2 (arithmetic e) minD @ ''KM|CAPACITY=''
                     @ capacity_status_spec (capacity b) (filled b))
       \<and> capacity_status_spec (capacity b) (filled b) =
           (if capacity b \<le> filled b then ''FULL''
            else if 5 * (capacity b - filled b) < capacity b then ''NEARLY_FULL''
            else ''AVAILABLE'')
       \<and> (colorForCapacity (capacity b) (filled b) = ''red'')
            = (capacity_status_spec (capacity b) (filled b) = ''FULL'')
       \<and> (colorForCapacity (capacity b) (filled b) = ''yellow'')
            = (capacity_status_spec (capacity b) (filled b) = ''NEARLY_FULL'')
       \<and> (colorForCapacity (capacity b) (filled b) = ''green'')
            = (capacity_status_spec (capacity b) (filled b) = ''AVAILABLE'')"
proof -
  have "response (sos e (Some txt) d)
           = SosAck (''ACK|SAFEBASE='' @ base_id b @ ''|DIST='' @ toFixed2 (arithmetic e) minD @ ''KM|CAPACITY=''
                     @ capacity_status_spec (capacity b) (filled b))"
    by (simp add: sos_accepted [OF assms(1,2)] resolve_ack_def assms(3) build_ack_def
        capacityStatus_spec)
  then show ?thesis
    using capacity_status_spec_int [of "capacity b" "filled b"]
      colorForCapacity_status [of "capacity b" "filled b"]
    by simp
qed

lemma parse_at_sathya:
  "parse_emergency exact_numerics stamp ''SOS|ID=HX002|LAT=13.0520|LON=80.2043|TYPE=FLOOD''
   = \<lparr>deviceId = ''HX002'', lat = Fin 13.0520, lon = Fin 80.2043, type = ''FLOOD'', time = stamp\<rparr>"
  by (simp add: parse_eval)

lemma haversine_self: "haversine exact_numerics (Fin la) (Fin lo) (Fin la) (Fin lo) = Fin 0"
  by (simp add: haversine_exact great_circle_km_self)

theorem capacity_status_in_ack_witness:
  "response (sos example_env (Some ''SOS|ID=HX002|LAT=13.0520|LON=80.2043|TYPE=FLOOD'') sathya_db)
     = SosAck ''ACK|SAFEBASE=BASE_SATHYA|DIST=0.00KM|CAPACITY=NEARLY_FULL''"
  using capacity_status_in_ack
    [of "''SOS|ID=HX002|LAT=13.0520|LON=80.2043|TYPE=FLOOD''" example_env sathya_db
        "preloaded_bases ! 1" "Fin 0"]
  by (simp add: example_env_accepts example_env_arithmetic parse_at_sathya sathya_db_def
      preloaded_bases_def haversine_self dec_digits.simps digit_char_def)

subsection \<open>The alert log and the failures after it\<close>

lemma sos_missing:
  "raw_opt = None \<or> raw_opt = Some [] \<Longrightarrow>
   sos e raw_opt d = \<lparr>response = SosError400 ''missing raw payload'', db_after = d, broadcast = []\<rparr>"
  by (auto simp: sos_def)

lemma sos_log_rejected:
  "txt \<noteq> [] \<Longrightarrow> rejects e InsertLog \<Longrightarrow>
   sos e (Some txt) d = \<lparr>response = SosError500 ''internal'', db_after = d, broadcast = []\<rparr>"
  by (simp add: sos_def)

lemma sos_event_rejected:
  "txt \<noteq> [] \<Longrightarrow> \<not> rejects e InsertLog \<Longrightarrow> rejects e InsertEvent \<Longrightarrow>
   sos e (Some txt) d =
     \<lparr>response = SosError500 ''internal'',
      db_after = d\<lparr>sms_logs := sms_logs d @ [(txt, now_ms e)]\<rparr>, broadcast = []\<rparr>"
  by (simp add: sos_def Let_def)

lemma sos_bases_rejected:
  "txt \<noteq> [] \<Longrightarrow> \<not> rejects e InsertLog \<Longrightarrow> \<not> rejects e InsertEvent \<Longrightarrow> rejects e SelectBases \<Longrightarrow>
   sos e (Some txt) d =
     \<lparr>response = SosError500 ''internal'',
      db_after = d\<lparr>sms_logs := sms_logs d @ [(txt, now_ms e)],
                   sos_events := sos_events d @ [sos_event_of (parse_emergency (arithmetic e) (now_iso e) txt)]\<rparr>,
      broadcast = []\<rparr>"
  by (simp add: sos_def Let_def)

lemma db_call_cases: "(\<forall>c. \<not> rejects e c) = (\<not> rejects e InsertLog \<and> \<not> rejects e InsertEvent \<and> \<not> rejects e SelectBases)"
proof
  assume "\<forall>c. \<not> rejects e c"
  then show "\<not> rejects e InsertLog \<and> \<not> rejects e InsertEvent \<and> \<not> rejects e SelectBases" by simp
next
  assume a: "\<not> rejects e InsertLog \<and> \<not> rejects e InsertEvent \<and> \<not> rejects e SelectBases"
  show "\<forall>c. \<not> rejects e c"
  proof
    fix c show "\<not> rejects e c" using a by (cases c) simp_all
  qed
qed

text \<open>
  C8 (amended): for a non-empty \<open>raw\<close> the alert-log row \<open>(raw, receipt time)\<close> is
  written first. If that write fails the answer is 500 and nothing is stored. Otherwise
  the row stays, whatever happens next: if storing the event fails the answer is 500 and
  no event is stored; if reading the directory fails the answer is 500, no ack is
  returned and nothing is broadcast, but the event stored just before remains; if nothing
  fails the answer is the ack.
\<close>

theorem alert_log_written_first:
  assumes "txt \<noteq> []"
  shows "(rejects e InsertLog \<longrightarrow>
            sos e (Some txt) d
              = \<lparr>response = SosError500 ''internal'', db_after = d, broadcast = []\<rparr>)
       \<and> (\<not> rejects e InsertLog \<longrightarrow>
            sms_logs (db_after (sos e (Some txt) d)) = sms_logs d @ [(txt, now_ms e)]
            \<and> safe_bases (db_after (sos e (Some txt) d)) = safe_bases d
            \<and> (rejects e InsertEvent \<longrightarrow>
                 response (sos e (Some txt) d) = SosError500 ''internal''
                 \<and> sos_events (db_after (sos e (Some txt) d)) = sos_events d
                 \<and> broadcast (sos e (Some txt) d) = [])
            \<and> (\<not> rejects e InsertEvent \<and> rejects e SelectBases \<longrightarrow>
                 response (sos e (Some txt) d) = SosError500 ''internal''
                 \<and> sos_events (db_after (sos e (Some txt) d))
                     = sos_events d @ [sos_event_of (parse_emergency (arithmetic e) (now_iso e) txt)]
                 \<and> broadcast (sos e (Some txt) d) = [])
            \<and> (\<not> rejects e InsertEvent \<and> \<not> rejects e SelectBases \<longrightarrow>
                 response (sos e (Some txt) d)
                   = SosAck (resolve_ack (arithmetic e) (parse_emergency (arithmetic e) (now_iso e) txt) (safe_bases d))
                 \<and> sos_events (db_after (sos e (Some txt) d))
                     = sos_events d @ [sos_event_of (parse_emergency (arithmetic e) (now_iso e) txt)]))"
proof (intro conjI impI)
  assume "rejects e InsertLog"
  then show "sos e (Some txt) d
              = \<lparr>response = SosError500 ''internal'', db_after = d, broadcast = []\<rparr>"
    using assms by (simp add: sos_log_rejected)
next
  assume "\<not> rejects e InsertLog"
  then show "sms_logs (db_after (sos e (Some txt) d)) = sms_logs d @ [(txt, now_ms e)]"
    using assms by (simp add: sos_def Let_def)
next
  assume "\<not> rejects e InsertLog"
  then show "safe_bases (db_after (sos e (Some txt) d)) = safe_bases d"
    using assms by (simp add: sos_def Let_def)
next
  assume "\<not> rejects e InsertLog" "rejects e InsertEvent"
  then show "response (sos e (Some txt) d) = SosError500 ''internal''"
    "sos_events (db_after (sos e (Some txt) d)) = sos_events d"
    "broadcast (sos e (Some txt) d) = []"
    using assms by (simp_all add: sos_event_rejected)
next
  assume "\<not> rejects e InsertLog" "\<not> rejects e InsertEvent \<and> rejects e SelectBases"
  then show "response (sos e (Some txt) d) = SosError500 ''internal''"
    "sos_events (db_after (sos e (Some txt) d))
       = sos_events d @ [sos_event_of (parse_emergency (arithmetic e) (now_iso e) txt)]"
    "broadcast (sos e (Some txt) d) = []"
    using assms by (simp_all add: sos_bases_rejected)
next
  assume "\<not> rejects e InsertLog" "\<not> rejects e InsertEvent \<and> \<not> rejects e SelectBases"
  then have "\<forall>c. \<not> rejects e c" by (simp add: db_call_cases)
  from sos_accepted [OF assms this, of d]
  show "response (sos e (Some txt) d)
          = SosAck (resolve_ack (arithmetic e) (parse_emergency (arithmetic e) (now_iso e) txt) (safe_bases d))"
    "sos_events (db_after (sos e (Some txt) d))
       = sos_events d @ [sos_event_of (parse_emergency (arithmetic e) (now_iso e) txt)]"
    by simp_all
qed

theorem event_kept_when_directory_fails:
  "response (sos directory_down_env (Some ''SOS|ID=HX001'') example_db) = SosError500 ''internal''
   \<and> sos_events (db_after (sos directory_down_env (Some ''SOS|ID=HX001'') example_db))
       = [\<lparr>ev_device_id = ''HX001'', ev_lat = Fin 0, ev_lon = Fin 0, ev_type = ''UNKNOWN'',
           ev_time = ''2023-11-14T22:13:20.000Z'', ev_status = ''received''\<rparr>]
   \<and> response (sos example_env (Some []) example_db) = SosError400 ''missing raw payload''
   \<and> sms_logs (db_after (sos example_env (Some []) example_db)) = []"
  by (simp add: sos_bases_rejected sos_missing directory_down_env_def example_env_def
      example_db_def sos_event_of_def parse_eval)

theorem alert_log_written_first_witness:
  "sms_logs (db_after (sos directory_down_env (Some ''SOS|ID=HX001'') example_db))
     = [(''SOS|ID=HX001'', 1700000000000)]
   \<and> response (sos directory_down_env (Some ''SOS|ID=HX001'') example_db) = SosError500 ''internal''
   \<and> broadcast (sos directory_down_env (Some ''SOS|ID=HX001'') example_db) = []"
  using alert_log_written_first [of "''SOS|ID=HX001''" directory_down_env example_db]
  by (simp add: directory_down_env_def example_env_def example_db_def)

subsection \<open>Tokens, keys and values\<close>

lemma split_on_nonempty: "split_on c s \<noteq> []"
  by (induction s) (auto split: list.splits)

lemma split_on_no_sep: "c \<notin> set s \<Longrightarrow> split_on c s = [s]"
  by (induction s) auto

lemma split_on_prefix: "c \<notin> set k \<Longrightarrow> split_on c (k @ c # s) = k # split_on c s"
  by (induction k) auto

lemma split_on_free: "t \<in> set (split_on c s) \<Longrightarrow> c \<notin> set t"
proof (induction s arbitrary: t)
  case Nil
  then show ?case by simp
next
  case (Cons x xs)
  show ?case
  proof (cases "x = c")
    case True
    with Cons show ?thesis by auto
  next
    case False
    obtain u us where u: "split_on c xs = u # us"
      using split_on_nonempty [of c xs] by (cases "split_on c xs") auto
    with Cons.prems False have "t = x # u \<or> t \<in> set us" by simp
    then show ?thesis
    proof
      assume "t = x # u"
      moreover have "c \<notin> set u" using Cons.IH [of u] u by simp
      ultimately show ?thesis using False by simp
    next
      assume "t \<in> set us"
      then show ?thesis using Cons.IH [of t] u by simp
    qed
  qed
qed

lemma join_with_Cons: "ts \<noteq> [] \<Longrightarrow> join_with c (t # ts) = t @ c # join_with c ts"
  by (cases ts) simp_all

lemma join_split: "join_with c (split_on c s) = s"
proof (induction s)
  case Nil
  then show ?case by simp
next
  case (Cons x xs)
  obtain u us where u: "split_on c xs = u # us"
    using split_on_nonempty [of c xs] by (cases "split_on c xs") auto
  show ?case
  proof (cases "x = c")
    case True
    then show ?thesis using Cons by (simp add: join_with_Cons split_on_nonempty)
  next
    case False
    show ?thesis
    proof (cases us)
      case Nil
      with False u Cons show ?thesis by simp
    next
      case (Cons v vs)
      with False u Cons.IH show ?thesis by simp
    qed
  qed
qed

lemma parse_token_key_value:
  assumes "CHR ''='' \<notin> set k" "CHR ''='' \<notin> set v"
  shows "parse_token obj (k @ ''='' @ v) = obj(k \<mapsto> v)"
    and "parse_token obj (k @ ''='' @ v @ ''='' @ rest) = obj(k \<mapsto> v)"
proof -
  have "split_on CHR ''='' (k @ CHR ''='' # v) = [k, v]"
    using assms by (simp add: split_on_prefix split_on_no_sep)
  then show "parse_token obj (k @ ''='' @ v) = obj(k \<mapsto> v)"
    by (simp add: parse_token_def)
  have "split_on CHR ''='' (k @ CHR ''='' # v @ CHR ''='' # rest) = k # v # split_on CHR ''='' rest"
    using assms by (simp add: split_on_prefix)
  then show "parse_token obj (k @ ''='' @ v @ ''='' @ rest) = obj(k \<mapsto> v)"
    by (simp add: parse_token_def)
qed

lemma parse_token_flag:
  "CHR ''='' \<notin> set p \<Longrightarrow> parse_token obj p = obj(''typeFlag'' \<mapsto> p)"
  by (simp add: parse_token_def)

lemma parseFloat_undefined: "parseFloat N ''undefined'' = NaN"
  by (simp add: parseFloat_def is_space_def is_digit_def)

lemma or_zero_cases: "or_zero x = (if x = NaN then Fin 0 else x)"
  by (auto simp: or_zero_def)

text \<open>
  C4 (amended): parsing never raises: with a non-empty \<open>raw\<close> and no failing database
  call the handler always answers with an ack. The string is cut at every \<open>|\<close>; a token
  containing \<open>=\<close> is cut at every \<open>=\<close>, its first piece is the key and its second piece
  (the text between the first \<open>=\<close> and the next \<open>=\<close> or the end of the token) is the
  value; a token without \<open>=\<close> is stored as the flag \<open>typeFlag\<close>. A missing, empty or
  unparsable field takes its default: \<open>deviceId = UNKNOWN\<close>, \<open>lat = 0\<close>, \<open>lon = 0\<close>,
  \<open>type = UNKNOWN\<close> and \<open>time\<close> the time of resolution.
\<close>

theorem parsing_never_raises:
  "(txt \<noteq> [] \<and> (\<forall>c. \<not> rejects e c) \<longrightarrow> (\<exists>a. response (sos e (Some txt) d) = SosAck a))
   \<and> join_with CHR ''|'' (split_on CHR ''|'' txt) = txt
   \<and> (\<forall>t \<in> set (split_on CHR ''|'' txt). CHR ''|'' \<notin> set t)
   \<and> (CHR ''='' \<notin> set k \<and> CHR ''='' \<notin> set v \<longrightarrow>
        parse_token obj (k @ ''='' @ v) = obj(k \<mapsto> v)
        \<and> parse_token obj (k @ ''='' @ v @ ''='' @ rest) = obj(k \<mapsto> v))
   \<and> (CHR ''='' \<notin> set p \<longrightarrow> parse_token obj p = obj(''typeFlag'' \<mapsto> p))
   \<and> deviceId (parse_emergency N stamp txt) =
        (case parse_payload txt ''ID'' of
           None \<Rightarrow> ''UNKNOWN'' | Some s \<Rightarrow> if s = [] then ''UNKNOWN'' else s)
   \<and> lat (parse_emergency N stamp txt) =
        (case parse_payload txt ''LAT'' of
           None \<Rightarrow> Fin 0 | Some s \<Rightarrow> if parseFloat N s = NaN then Fin 0 else parseFloat N s)
   \<and> lon (parse_emergency N stamp txt) =
        (case parse_payload txt ''LON'' of
           None \<Rightarrow> Fin 0 | Some s \<Rightarrow> if parseFloat N s = NaN then Fin 0 else parseFloat N s)
   \<and> type (parse_emergency N stamp txt) =
        (case parse_payload txt ''TYPE'' of
           None \<Rightarrow> ''UNKNOWN'' | Some s \<Rightarrow> if s = [] then ''UNKNOWN'' else s)
   \<and> time (parse_emergency N stamp txt) =
        (case parse_payload txt ''TIME'' of
           None \<Rightarrow> stamp | Some s \<Rightarrow> if s = [] then stamp else s)"
proof (intro conjI impI)
  assume "txt \<noteq> [] \<and> (\<forall>c. \<not> rejects e c)"
  then show "\<exists>a. response (sos e (Some txt) d) = SosAck a"
    by (simp add: sos_accepted)
next
  show "join_with CHR ''|'' (split_on CHR ''|'' txt) = txt"
    by (rule join_split)
next
  show "\<forall>t \<in> set (split_on CHR ''|'' txt). CHR ''|'' \<notin> set t"
    using split_on_free by blast
next
  assume "CHR ''='' \<notin> set k \<and> CHR ''='' \<notin> set v"
  then show "parse_token obj (k @ ''='' @ v) = obj(k \<mapsto> v)"
    and "parse_token obj (k @ ''='' @ v @ ''='' @ rest) = obj(k \<mapsto> v)"
    using parse_token_key_value(1) [of k v obj] parse_token_key_value(2) [of k v obj rest]
    by simp_all
next
  assume "CHR ''='' \<notin> set p"
  then show "parse_token obj p = obj(''typeFlag'' \<mapsto> p)"
    by (rule parse_token_flag)
next
  show "deviceId (parse_emergency N stamp txt) =
        (case parse_payload txt ''ID'' of
           None \<Rightarrow> ''UNKNOWN'' | Some s \<Rightarrow> if s = [] then ''UNKNOWN'' else s)"
    by (simp add: parse_emergency_def Let_def or_default_def)
next
  show "lat (parse_emergency N stamp txt) =
        (case parse_payload txt ''LAT'' of
           None \<Rightarrow> Fin 0 | Some s \<Rightarrow> if parseFloat N s = NaN then Fin 0 else parseFloat N s)"
    by (simp add: parse_emergency_def Let_def parseFloat_prop_def parseFloat_undefined
        or_zero_cases split: option.splits)
next
  show "lon (parse_emergency N stamp txt) =
        (case parse_payload txt ''LON'' of
           None \<Rightarrow> Fin 0 | Some s \<Rightarrow> if parseFloat N s = NaN then Fin 0 else parseFloat N s)"
    by (simp add: parse_emergency_def Let_def parseFloat_prop_def parseFloat_undefined
        or_zero_cases split: option.splits)
next
  show "type (parse_emergency N stamp txt) =
        (case parse_payload txt ''TYPE'' of
           None \<Rightarrow> ''UNKNOWN'' | Some s \<Rightarrow> if s = [] then ''UNKNOWN'' else s)"
    by (simp add: parse_emergency_def Let_def or_default_def)
next
  show "time (parse_emergency N stamp txt) =
        (case parse_payload txt ''TIME'' of
           None \<Rightarrow> stamp | Some s \<Rightarrow> if s = [] then stamp else s)"
    by (simp add: parse_emergency_def Let_def or_default_def)
qed

theorem value_cut_at_second_equals:
  "deviceId (parse_emergency exact_numerics ''2023-11-14T22:13:20.000Z'' ''SOS|ID=a=b'') = ''a''
   \<and> split_at_first CHR ''='' ''ID=a=b'' = (''ID'', ''a=b'')"
  by (simp add: parse_eval split_at_first_def)

theorem parsing_never_raises_witness:
  "(\<exists>a. response (sos example_env (Some ''SOS|ID=|LAT=north|TYPE=FIRE|=|junk'') example_db) = SosAck a)
   \<and> parse_token Map.empty ''TYPE=FIRE'' = [''TYPE'' \<mapsto> ''FIRE'']
   \<and> parse_token Map.empty ''junk'' = [''typeFlag'' \<mapsto> ''junk'']
   \<and> parse_emergency exact_numerics ''2023-11-14T22:13:20.000Z'' ''SOS|ID=|LAT=north|TYPE=FIRE|=|junk''
       = \<lparr>deviceId = ''UNKNOWN'', lat = Fin 0, lon = Fin 0, type = ''FIRE'',
          time = ''2023-11-14T22:13:20.000Z''\<rparr>"
proof -
  have eval: "parse_emergency exact_numerics ''2023-11-14T22:13:20.000Z'' ''SOS|ID=|LAT=north|TYPE=FIRE|=|junk''
       = \<lparr>deviceId = ''UNKNOWN'', lat = Fin 0, lon = Fin 0, type = ''FIRE'',
          time = ''2023-11-14T22:13:20.000Z''\<rparr>"
    by (simp add: parse_eval)
  have "(\<exists>a. response (sos example_env (Some ''SOS|ID=|LAT=north|TYPE=FIRE|=|junk'') example_db) = SosAck a)
   \<and> parse_token Map.empty ''TYPE=FIRE'' = [''TYPE'' \<mapsto> ''FIRE'']
   \<and> parse_token Map.empty ''junk'' = [''typeFlag'' \<mapsto> ''junk'']"
    using parsing_never_raises
      [of "''SOS|ID=|LAT=north|TYPE=FIRE|=|junk''" example_env example_db
          "''TYPE''" "''FIRE''" Map.empty "''''" "''junk''" exact_numerics
          "''2023-11-14T22:13:20.000Z''"]
    by (simp add: example_env_accepts)
  with eval show ?thesis by simp
qed

end
